theory Spec2Isabelle
  imports Main
begin

section \<open>Strings\<close>

text \<open>
  Go strings are byte sequences; \<open>string\<close> is a list of bytes. Keys, field names and
  type names are taken to be ASCII: on ASCII, \<^verbatim>\<open>strings.ToLower\<close> maps \<open>A..Z\<close> to
  \<open>a..z\<close> and leaves every other byte as it is.
\<close>

definition toLowerByte :: "char \<Rightarrow> char" where
  "toLowerByte c =
     (case map_of (zip ''ABCDEFGHIJKLMNOPQRSTUVWXYZ'' ''abcdefghijklmnopqrstuvwxyz'') c of
        Some l \<Rightarrow> l
      | None \<Rightarrow> c)"

definition ToLower :: "string \<Rightarrow> string" where
  "ToLower s = map toLowerByte s"

text \<open>\<^verbatim>\<open>normalize\<close>: lower-case the string, then delete every \<open>_\<close>.\<close>

definition normalize :: "string \<Rightarrow> string" where
  "normalize s = filter (\<lambda>c. c \<noteq> CHR ''_'') (ToLower s)"

text \<open>
  \<^verbatim>\<open>strings.Split(rawKey, "_")\<close>: the pieces between the separators; the empty string
  gives one empty piece, so the result is never empty.
\<close>

fun Split :: "string \<Rightarrow> string list" where
  "Split [] = [[]]"
| "Split (c # cs) =
     (if c = CHR ''_'' then [] # Split cs
      else (case Split cs of [] \<Rightarrow> [[c]] | w # ws \<Rightarrow> (c # w) # ws))"

text \<open>\<^verbatim>\<open>strings.Join(parts, "_")\<close>.\<close>

fun Join :: "string list \<Rightarrow> string" where
  "Join [] = []"
| "Join [p] = p"
| "Join (p # q # ps) = p @ CHR ''_'' # Join (q # ps)"

section \<open>The library's parsers\<close>

text \<open>
  \<^verbatim>\<open>strconv\<close> and \<^verbatim>\<open>time\<close> are the Go standard library. Base-10 integers, booleans and
  durations are modelled here after the library's code. Floating-point parsing is taken
  as a parameter: a float is kept as the bit pattern of the value the library returns.
\<close>

record stdlib =
  ParseFloat :: "string \<Rightarrow> nat \<Rightarrow> nat option"
  ParseComplex :: "string \<Rightarrow> nat \<Rightarrow> (nat \<times> nat) option"
  fractionOfUnit :: "nat \<Rightarrow> nat \<Rightarrow> nat \<Rightarrow> nat"

definition isDigit :: "char \<Rightarrow> bool" where
  "isDigit c = (48 \<le> (of_char c :: nat) \<and> (of_char c :: nat) \<le> 57)"

definition digitVal :: "char \<Rightarrow> nat" where
  "digitVal c = of_char c - 48"

definition decimal :: "string \<Rightarrow> nat" where
  "decimal s = foldl (\<lambda>n c. n * 10 + digitVal c) 0 s"

text \<open>
  \<^verbatim>\<open>strconv.ParseUint(s, 10, bitSize)\<close>: a non-empty run of decimal digits (no sign, no
  underscore) whose value is below \<open>2 ^ bitSize\<close>; everything else is an error.
\<close>

definition ParseUint :: "string \<Rightarrow> nat \<Rightarrow> nat option" where
  "ParseUint s bitSize =
     (if s = [] \<or> \<not> list_all isDigit s then None
      else if decimal s \<ge> 2 ^ bitSize then None
      else Some (decimal s))"

text \<open>
  \<^verbatim>\<open>strconv.ParseInt(s, 10, bitSize)\<close>: an optional sign, then digits as for
  \<^verbatim>\<open>ParseUint\<close>; the value must lie in \<open>[-2^(bitSize-1), 2^(bitSize-1) - 1]\<close>.
\<close>

definition ParseInt :: "string \<Rightarrow> nat \<Rightarrow> int option" where
  "ParseInt s bitSize =
     (if s = [] then None
      else let neg = (hd s = CHR ''-'');
               s' = (if hd s = CHR ''+'' \<or> hd s = CHR ''-'' then tl s else s);
               cutoff = (2::nat) ^ (bitSize - 1)
           in if s' = [] \<or> \<not> list_all isDigit s' then None
              else if \<not> neg \<and> decimal s' \<ge> cutoff then None
              else if neg \<and> decimal s' > cutoff then None
              else Some (if neg then - int (decimal s') else int (decimal s')))"

text \<open>\<^verbatim>\<open>strconv.Atoi\<close> is \<^verbatim>\<open>ParseInt(s, 10, 0)\<close>; \<^verbatim>\<open>int\<close> has 64 bits.\<close>

definition Atoi :: "string \<Rightarrow> int option" where
  "Atoi s = ParseInt s 64"

definition ParseBool :: "string \<Rightarrow> bool option" where
  "ParseBool s =
     (if s \<in> set [''1'', ''t'', ''T'', ''TRUE'', ''true'', ''True''] then Some True
      else if s \<in> set [''0'', ''f'', ''F'', ''FALSE'', ''false'', ''False''] then Some False
      else None)"

subsection \<open>\<^verbatim>\<open>time.ParseDuration\<close>\<close>

text \<open>
  \<^verbatim>\<open>leadingInt\<close> consumes the leading digits; it fails when the value passes \<open>2^63\<close>.
\<close>

fun leadingInt :: "nat \<Rightarrow> string \<Rightarrow> (nat \<times> string) option" where
  "leadingInt x [] = Some (x, [])"
| "leadingInt x (c # cs) =
     (if \<not> isDigit c then Some (x, c # cs)
      else if x > 2 ^ 63 div 10 then None
      else if x * 10 + digitVal c > 2 ^ 63 then None
      else leadingInt (x * 10 + digitVal c) cs)"

text \<open>
  \<^verbatim>\<open>leadingFraction\<close> consumes the leading digits and stops accumulating on overflow;
  \<open>scale\<close> is the power of ten by which the digits kept are to be divided.
\<close>

fun leadingFraction :: "nat \<Rightarrow> nat \<Rightarrow> bool \<Rightarrow> string \<Rightarrow> nat \<times> nat \<times> string" where
  "leadingFraction x scale overflow [] = (x, scale, [])"
| "leadingFraction x scale overflow (c # cs) =
     (if \<not> isDigit c then (x, scale, c # cs)
      else if overflow then leadingFraction x scale overflow cs
      else if x > (2 ^ 63 - 1) div 10 then leadingFraction x scale True cs
      else if x * 10 + digitVal c > 2 ^ 63 then leadingFraction x scale True cs
      else leadingFraction (x * 10 + digitVal c) (scale * 10) overflow cs)"

definition unitMap :: "string \<Rightarrow> nat option" where
  "unitMap u =
     (if u = ''ns'' then Some 1
      else if u = ''us'' then Some 1000
      else if u = [CHR 0xC2, CHR 0xB5, CHR ''s''] then Some 1000
      else if u = [CHR 0xCE, CHR 0xBC, CHR ''s''] then Some 1000
      else if u = ''ms'' then Some 1000000
      else if u = ''s'' then Some 1000000000
      else if u = ''m'' then Some 60000000000
      else if u = ''h'' then Some 3600000000000
      else None)"

text \<open>
  One \<open>number unit\<close> group per call; \<open>d\<close> is the sum so far, a \<^verbatim>\<open>uint64\<close>. The fraction's
  share \<^verbatim>\<open>uint64(float64(f) * (float64(unit) / scale))\<close> is the parameter
  \<open>fractionOfUnit\<close>.
\<close>

lemma leadingInt_length: "leadingInt x s = Some (v, r) \<Longrightarrow> length r \<le> length s"
  by (induction x s rule: leadingInt.induct) (auto split: if_splits)

lemma leadingFraction_length:
  "leadingFraction x sc ov s = (f, sc', r) \<Longrightarrow> length r \<le> length s"
  by (induction x sc ov s rule: leadingFraction.induct) (auto split: if_splits)

lemma dropWhile_shorter: "takeWhile P s \<noteq> [] \<Longrightarrow> length (dropWhile P s) < length s"
  by (cases s) (auto simp: le_imp_less_Suc length_dropWhile_le split: if_splits)

function durationLoop :: "stdlib \<Rightarrow> nat \<Rightarrow> string \<Rightarrow> nat option" where
  "durationLoop L d s =
     (if s = [] then Some d
      else if \<not> (hd s = CHR ''.'' \<or> isDigit (hd s)) then None
      else (case leadingInt 0 s of
              None \<Rightarrow> None
            | Some (v, s1) \<Rightarrow>
                let pre = (length s \<noteq> length s1);
                    (f, scale, s2, post) =
                      (if s1 \<noteq> [] \<and> hd s1 = CHR ''.''
                       then (case leadingFraction 0 1 False (tl s1) of
                               (f, scale, r) \<Rightarrow> (f, scale, r, length (tl s1) \<noteq> length r))
                       else (0, 1, s1, False))
                in if \<not> pre \<and> \<not> post then None
                   else let u = takeWhile (\<lambda>c. \<not> (c = CHR ''.'' \<or> isDigit c)) s2;
                            s3 = dropWhile (\<lambda>c. \<not> (c = CHR ''.'' \<or> isDigit c)) s2
                        in if u = [] then None
                           else (case unitMap u of
                                   None \<Rightarrow> None
                                 | Some unit \<Rightarrow>
                                     if v > 2 ^ 63 div unit then None
                                     else let v1 = (if f > 0
                                                    then (v * unit + fractionOfUnit L f unit scale) mod 2 ^ 64
                                                    else v * unit)
                                          in if f > 0 \<and> v1 > 2 ^ 63 then None
                                             else let d1 = (d + v1) mod 2 ^ 64
                                                  in if d1 > 2 ^ 63 then None
                                                     else durationLoop L d1 s3)))"
  by pat_completeness auto
termination
  apply (relation "measure (\<lambda>(L, d, s). length s)")
   apply simp
  apply (auto split: if_splits prod.splits
      dest!: leadingInt_length leadingFraction_length dropWhile_shorter)
  done

declare durationLoop.simps [simp del]

text \<open>The result is a duration in nanoseconds, an \<^verbatim>\<open>int64\<close>.\<close>

definition ParseDuration :: "stdlib \<Rightarrow> string \<Rightarrow> int option" where
  "ParseDuration L orig =
     (let neg = (orig \<noteq> [] \<and> hd orig = CHR ''-'');
          s = (if orig \<noteq> [] \<and> (hd orig = CHR ''-'' \<or> hd orig = CHR ''+'') then tl orig else orig)
      in if s = ''0'' then Some 0
         else if s = [] then None
         else (case durationLoop L 0 s of
                 None \<Rightarrow> None
               | Some d \<Rightarrow>
                   if neg then Some (- int d)
                   else if d > 2 ^ 63 - 1 then None
                   else Some (int d)))"

lemmas duration_eval = ParseDuration_def durationLoop.simps isDigit_def digitVal_def unitMap_def

section \<open>Types and values as \<^verbatim>\<open>reflect\<close> shows them\<close>

datatype kind =
    KInvalid | KBool | KInt | KInt8 | KInt16 | KInt32 | KInt64
  | KUint | KUint8 | KUint16 | KUint32 | KUint64 | KUintptr
  | KFloat32 | KFloat64 | KComplex64 | KComplex128
  | KArray | KChan | KFunc | KInterface | KMap | KPointer | KSlice | KString | KStruct
  | KUnsafePointer

text \<open>
  A type carries its name (\<^verbatim>\<open>Type.Name()\<close>, empty for an unnamed type such as \<^verbatim>\<open>*T\<close>,
  \<^verbatim>\<open>[]T\<close> or \<^verbatim>\<open>map[K]V\<close>). \<open>TBasic\<close> is a type of a kind the decoder never looks
  into: the scalar kinds, and arrays, channels, functions and the like. \<open>TDuration\<close> is
  \<^verbatim>\<open>time.Duration\<close>, the one type the decoder compares by identity. A struct lists its
  fields in declaration order, each with its name and type. An interface type carries
  its number of methods.
\<close>

datatype gotype =
    TBasic string kind
  | TDuration
  | TPtr string gotype
  | TStruct string "(string \<times> gotype) list"
  | TMap string gotype gotype
  | TSlice string gotype
  | TInterface string nat

fun Name :: "gotype \<Rightarrow> string" where
  "Name (TBasic n k) = n"
| "Name TDuration = ''Duration''"
| "Name (TPtr n t) = n"
| "Name (TStruct n fs) = n"
| "Name (TMap n kt vt) = n"
| "Name (TSlice n t) = n"
| "Name (TInterface n m) = n"

fun Kind :: "gotype \<Rightarrow> kind" where
  "Kind (TBasic n k) = k"
| "Kind TDuration = KInt64"
| "Kind (TPtr n t) = KPointer"
| "Kind (TStruct n fs) = KStruct"
| "Kind (TMap n kt vt) = KMap"
| "Kind (TSlice n t) = KSlice"
| "Kind (TInterface n m) = KInterface"

text \<open>\<^verbatim>\<open>Type.Bits()\<close> on a 64-bit platform.\<close>

fun Bits :: "kind \<Rightarrow> nat" where
  "Bits KInt8 = 8" | "Bits KUint8 = 8"
| "Bits KInt16 = 16" | "Bits KUint16 = 16"
| "Bits KInt32 = 32" | "Bits KUint32 = 32" | "Bits KFloat32 = 32"
| "Bits KComplex128 = 128"
| "Bits k = 64"

text \<open>
  Values. A pointer is nil or holds its pointee; a map and a slice are nil or hold
  their entries. The destination is a tree: no two pointers, maps or slices of it share
  storage, as is the case for every destination the decoder builds from zero values.
  A map value is a partial function from its keys. \<open>VOpaque\<close> is a value of a kind
  the decoder never looks into.
\<close>

datatype goval =
    VBool bool
  | VInt int
  | VUint nat
  | VFloat nat
  | VComplex nat nat
  | VString string
  | VPtr "goval option"
  | VStruct "goval list"
  | VMap "(string \<Rightarrow> goval option) option"
  | VSlice "goval list option"
  | VOpaque

text \<open>The zero value of a type (\<^verbatim>\<open>reflect.New(t).Elem()\<close>, \<^verbatim>\<open>reflect.MakeSlice\<close>).\<close>

fun zero :: "gotype \<Rightarrow> goval" where
  "zero (TBasic n k) =
     (if k = KBool then VBool False
      else if k \<in> {KInt, KInt8, KInt16, KInt32, KInt64} then VInt 0
      else if k \<in> {KUint, KUint8, KUint16, KUint32, KUint64, KUintptr} then VUint 0
      else if k \<in> {KFloat32, KFloat64} then VFloat 0
      else if k \<in> {KComplex64, KComplex128} then VComplex 0 0
      else if k = KString then VString []
      else VOpaque)"
| "zero TDuration = VInt 0"
| "zero (TPtr n t) = VPtr None"
| "zero (TStruct n fs) = VStruct (map (\<lambda>f. zero (snd f)) fs)"
| "zero (TMap n kt vt) = VMap None"
| "zero (TSlice n t) = VSlice None"
| "zero (TInterface n m) = VOpaque"

section \<open>Errors\<close>

text \<open>
  One constructor for each \<^verbatim>\<open>fmt.Errorf\<close> of the source, with the values it formats.
  \<open>KeyError rawKey cause\<close> is \<^verbatim>\<open>"xconfigdotenv: Unmarshal: key %q: %w"\<close>. A panic of the
  runtime is not an error value: it ends the call without a result.
\<close>

datatype error =
    DotenvError string
  | MustBeNonNilPointer
  | MustPointToStruct kind
  | KeyError string error
  | CannotDescendPointer string kind "string list"
  | MapNoKey string
  | CannotParseSliceIndex string string
  | CannotDescendSliceElem kind string
  | CannotDescendField string kind "string list"
  | CannotParseDuration string
  | CannotParseBool string
  | CannotParseInt string
  | CannotParseUint string
  | CannotParseFloat string
  | CannotParseComplex string
  | UnsupportedKind kind string
  | UnsupportedMapKeyType kind

datatype panic =
    NumFieldOfNonStruct kind
  | SliceIndexOutOfRange
  | MakeSliceNegativeLen
  | SetMapIndexNotAssignable string

datatype outcome = Success | Error error | Panic panic

section \<open>Writing a value\<close>

text \<open>
  \<^verbatim>\<open>setWithReflect\<close> stores \<open>cv\<close> in \<open>fieldVal\<close>, directly when the value can be set and
  through its address otherwise; it fails only for a value that is not addressable.
  Every value \<^verbatim>\<open>Unmarshal\<close> reaches is addressable: the pointee of the destination
  pointer, a field of an addressable struct (\<^verbatim>\<open>getFieldValue\<close>), the pointee of a
  pointer, an element of a slice, a fresh \<^verbatim>\<open>reflect.New(t).Elem()\<close>. So the model is
  the write.
\<close>

definition setWithReflect :: "goval \<Rightarrow> goval \<Rightarrow> goval" where
  "setWithReflect fieldVal cv = cv"

text \<open>
  \<^verbatim>\<open>setBasicValue\<close>: the duration first, then the switch on the kind. A nil pointer is
  set to a fresh zero pointee, and stays so when the write into the pointee fails.
\<close>

fun setBasicValue :: "stdlib \<Rightarrow> gotype \<Rightarrow> goval \<Rightarrow> string \<Rightarrow> goval \<times> outcome" where
  "setBasicValue L TDuration fieldVal rawVal =
     (case ParseDuration L rawVal of
        None \<Rightarrow> (fieldVal, Error (CannotParseDuration rawVal))
      | Some dur \<Rightarrow> (setWithReflect fieldVal (VInt dur), Success))"
| "setBasicValue L (TBasic n k) fieldVal rawVal =
     (if k = KString then (setWithReflect fieldVal (VString rawVal), Success)
      else if k = KBool then
        (case ParseBool rawVal of
           None \<Rightarrow> (fieldVal, Error (CannotParseBool rawVal))
         | Some b \<Rightarrow> (setWithReflect fieldVal (VBool b), Success))
      else if k \<in> {KInt, KInt8, KInt16, KInt32, KInt64} then
        (case ParseInt rawVal (Bits k) of
           None \<Rightarrow> (fieldVal, Error (CannotParseInt rawVal))
         | Some i \<Rightarrow> (setWithReflect fieldVal (VInt i), Success))
      else if k \<in> {KUint, KUint8, KUint16, KUint32, KUint64} then
        (case ParseUint rawVal (Bits k) of
           None \<Rightarrow> (fieldVal, Error (CannotParseUint rawVal))
         | Some u \<Rightarrow> (setWithReflect fieldVal (VUint u), Success))
      else if k \<in> {KFloat32, KFloat64} then
        (case ParseFloat L rawVal (Bits k) of
           None \<Rightarrow> (fieldVal, Error (CannotParseFloat rawVal))
         | Some f \<Rightarrow> (setWithReflect fieldVal (VFloat f), Success))
      else if k \<in> {KComplex64, KComplex128} then
        (case ParseComplex L rawVal (Bits k) of
           None \<Rightarrow> (fieldVal, Error (CannotParseComplex rawVal))
         | Some (re, im) \<Rightarrow> (setWithReflect fieldVal (VComplex re im), Success))
      else (fieldVal, Error (UnsupportedKind k rawVal)))"
| "setBasicValue L (TPtr n t) fieldVal rawVal =
     (let elem = (case fieldVal of VPtr (Some e) \<Rightarrow> e | _ \<Rightarrow> zero t)
      in case setBasicValue L t elem rawVal of
           (elem', out) \<Rightarrow> (VPtr (Some elem'), out))"
| "setBasicValue L t fieldVal rawVal = (fieldVal, Error (UnsupportedKind (Kind t) rawVal))"

text \<open>
  \<^verbatim>\<open>setMapValue\<close>. The key handed to \<^verbatim>\<open>SetMapIndex\<close> is a \<^verbatim>\<open>string\<close> value, which
  \<^verbatim>\<open>reflect\<close> assigns to the predeclared type \<^verbatim>\<open>string\<close> (\<open>TBasic ''string'' KString\<close>)
  only: for any other key type of kind string it panics.
\<close>

definition isEmptyInterface :: "gotype \<Rightarrow> bool" where
  "isEmptyInterface t = (case t of TInterface n m \<Rightarrow> m = 0 | _ \<Rightarrow> False)"

definition SetMapIndex :: "goval \<Rightarrow> string \<Rightarrow> goval \<Rightarrow> goval" where
  "SetMapIndex mapVal mapKey cv =
     (case mapVal of
        VMap (Some m) \<Rightarrow> VMap (Some (m(mapKey \<mapsto> cv)))
      | _ \<Rightarrow> VMap (Some [mapKey \<mapsto> cv]))"

definition setMapValue ::
  "stdlib \<Rightarrow> gotype \<Rightarrow> gotype \<Rightarrow> goval \<Rightarrow> string \<Rightarrow> string \<Rightarrow> goval \<times> outcome" where
  "setMapValue L keyType valType mapVal mapKey rawVal =
     (if Kind keyType \<noteq> KString then (mapVal, Error (UnsupportedMapKeyType (Kind keyType)))
      else case (if isEmptyInterface valType then (VString rawVal, Success)
                 else setBasicValue L valType (zero valType) rawVal) of
             (cv, Success) \<Rightarrow>
               if keyType \<noteq> TBasic ''string'' KString
               then (mapVal, Panic (SetMapIndexNotAssignable (Name keyType)))
               else (SetMapIndex mapVal mapKey cv, Success)
           | (cv, out) \<Rightarrow> (mapVal, out))"

section \<open>The search for a field\<close>

text \<open>
  The inner loop of \<^verbatim>\<open>assignValue\<close>, over the fields in declaration order from index
  \<open>i\<close> on: the index of the first field whose normalised name or normalised type name
  is the normalised prefix.
\<close>

fun fieldLoop :: "(string \<times> gotype) list \<Rightarrow> string \<Rightarrow> nat \<Rightarrow> nat option" where
  "fieldLoop [] normalizedPrefix i = None"
| "fieldLoop (field # rest) normalizedPrefix i =
     (if normalize (fst field) \<noteq> normalizedPrefix
         \<and> normalize (Name (snd field)) \<noteq> normalizedPrefix
      then fieldLoop rest normalizedPrefix (Suc i)
      else Some i)"

text \<open>
  The outer loop, \<open>prefixLen\<close> from \<open>len(parts)\<close> down to 1. Every path of the loop body
  after the match returns, so the two loops only search: the result is the prefix length
  and the field index at which the body runs, or \<open>None\<close> when both loops run out.
\<close>

fun prefixLoop :: "(string \<times> gotype) list \<Rightarrow> string list \<Rightarrow> nat \<Rightarrow> (nat \<times> nat) option" where
  "prefixLoop fs parts 0 = None"
| "prefixLoop fs parts (Suc k) =
     (case fieldLoop fs (normalize (Join (take (Suc k) parts))) 0 of
        Some i \<Rightarrow> Some (Suc k, i)
      | None \<Rightarrow> prefixLoop fs parts k)"

lemma prefixLoop_bounds:
  "prefixLoop fs parts k = Some (prefixLen, i) \<Longrightarrow> 0 < prefixLen \<and> prefixLen \<le> k"
  by (induction k) (auto split: option.splits)

section \<open>\<^verbatim>\<open>assignValue\<close>\<close>

text \<open>
  \<^verbatim>\<open>getFieldValue(v, i)\<close> is field \<open>i\<close> of the struct value, \<open>i\<close> below the number of
  fields of its type; \<open>setField\<close> puts the field's new value back into the struct, which
  the source does by writing through the field's address.
\<close>

definition getFieldValue :: "goval \<Rightarrow> nat \<Rightarrow> goval" where
  "getFieldValue v i = (case v of VStruct vs \<Rightarrow> vs ! i | _ \<Rightarrow> VOpaque)"

definition setField :: "goval \<Rightarrow> nat \<Rightarrow> goval \<Rightarrow> goval" where
  "setField v i fieldVal = (case v of VStruct vs \<Rightarrow> VStruct (vs[i := fieldVal]) | _ \<Rightarrow> v)"

text \<open>
  \<open>assignValue\<close> is the function of the source; \<open>assignField\<close> is the body of its loops
  from the match on: the field, its value, the leftover segments. Both return the value
  as the call leaves it, with the outcome of the call: what was allocated or grown
  before a failure stays.
\<close>

function assignValue :: "stdlib \<Rightarrow> gotype \<Rightarrow> goval \<Rightarrow> string list \<Rightarrow> string \<Rightarrow> goval \<times> outcome"
  and assignField ::
    "stdlib \<Rightarrow> string \<times> gotype \<Rightarrow> goval \<Rightarrow> string list \<Rightarrow> string \<Rightarrow> goval \<times> outcome"
where
  "assignValue L typ v parts rawVal =
     (if parts = [] then (v, Success)
      else case typ of
        TStruct n fs \<Rightarrow>
          (case prefixLoop fs parts (length parts) of
             None \<Rightarrow> (v, Success)
           | Some (prefixLen, i) \<Rightarrow>
               (case assignField L (fs ! i) (getFieldValue v i) (drop prefixLen parts) rawVal of
                  (fieldVal, out) \<Rightarrow> (setField v i fieldVal, out)))
      | _ \<Rightarrow> (v, Panic (NumFieldOfNonStruct (Kind typ))))"
| "assignField L field fieldVal leftover rawVal =
     (if leftover = [] then setBasicValue L (snd field) fieldVal rawVal
      else case snd field of
        TPtr n et \<Rightarrow>
          (let elem = (case fieldVal of VPtr (Some e) \<Rightarrow> e | _ \<Rightarrow> zero et)
           in if Kind et = KStruct
              then (case assignValue L et elem leftover rawVal of
                      (elem', out) \<Rightarrow> (VPtr (Some elem'), out))
              else (VPtr (Some elem), Error (CannotDescendPointer (fst field) (Kind et) leftover)))
      | TStruct n fs \<Rightarrow> assignValue L (snd field) fieldVal leftover rawVal
      | TMap n kt vt \<Rightarrow>
          (if length leftover = 0 then (fieldVal, Error (MapNoKey (fst field)))
           else setMapValue L kt vt
                  (case fieldVal of VMap (Some m) \<Rightarrow> fieldVal | _ \<Rightarrow> VMap (Some Map.empty))
                  (Join leftover) rawVal)
      | TSlice n et \<Rightarrow>
          (case Atoi (hd leftover) of
             None \<Rightarrow> (fieldVal, Error (CannotParseSliceIndex (hd leftover) (fst field)))
           | Some ix \<Rightarrow>
               (let xs = (case fieldVal of VSlice (Some xs) \<Rightarrow> xs | _ \<Rightarrow> [])
                in if ix \<ge> int (length xs) \<and> ix + 1 \<ge> 2 ^ 63
                   then (VSlice (Some xs), Panic MakeSliceNegativeLen)
                   else let ys = (if ix \<ge> int (length xs)
                                  then xs @ replicate (nat (ix + 1) - length xs) (zero et)
                                  else xs)
                        in if ix < 0 then (VSlice (Some ys), Panic SliceIndexOutOfRange)
                           else if length leftover > 1 then
                             (case et of
                                TPtr pn pt \<Rightarrow>
                                  (case assignValue L pt
                                          (case ys ! nat ix of VPtr (Some e) \<Rightarrow> e | _ \<Rightarrow> zero pt)
                                          (tl leftover) rawVal of
                                     (e', out) \<Rightarrow> (VSlice (Some (ys[nat ix := VPtr (Some e')])), out))
                              | TStruct sn sfs \<Rightarrow>
                                  (case assignValue L et (ys ! nat ix) (tl leftover) rawVal of
                                     (e', out) \<Rightarrow> (VSlice (Some (ys[nat ix := e'])), out))
                              | _ \<Rightarrow> (VSlice (Some ys),
                                      Error (CannotDescendSliceElem (Kind et) (fst field))))
                           else (case setBasicValue L et (ys ! nat ix) rawVal of
                                   (e', out) \<Rightarrow> (VSlice (Some (ys[nat ix := e'])), out))))
      | _ \<Rightarrow> (fieldVal, Error (CannotDescendField (fst field) (Kind (snd field)) leftover)))"
  by pat_completeness auto
termination
  apply (relation "measure (\<lambda>x. case x of
            Inl (L, typ, v, parts, rawVal) \<Rightarrow> 2 * length parts
          | Inr (L, field, fieldVal, leftover, rawVal) \<Rightarrow> 2 * length leftover + 1)")
      apply (auto dest!: prefixLoop_bounds)
  done

declare assignValue.simps [simp del] assignField.simps [simp del]

section \<open>\<^verbatim>\<open>Unmarshal\<close>\<close>

text \<open>
  The \<^verbatim>\<open>range\<close> over the flat map, the pairs in the order the loop visits them (Go
  leaves that order open). An error of a key is wrapped with the key and ends the loop;
  a panic ends it as it is.
\<close>

fun rangeLoop ::
  "stdlib \<Rightarrow> gotype \<Rightarrow> goval \<Rightarrow> (string \<times> string) list \<Rightarrow> goval \<times> outcome" where
  "rangeLoop L t elem [] = (elem, Success)"
| "rangeLoop L t elem ((rawKey, rawVal) # rest) =
     (let parts = Split rawKey
      in if length parts = 0 then rangeLoop L t elem rest
         else (case assignValue L t elem parts rawVal of
                 (elem', Success) \<Rightarrow> rangeLoop L t elem' rest
               | (elem', Error err) \<Rightarrow> (elem', Error (KeyError rawKey err))
               | (elem', Panic p) \<Rightarrow> (elem', Panic p)))"

text \<open>
  The destination \<^verbatim>\<open>v any\<close>: something that is no pointer, a nil pointer, or a pointer
  to a value of a type. The parser \<^verbatim>\<open>godotenv.UnmarshalBytes\<close> is not part of the
  decoder; its result, an error or the flat map, is the input.
\<close>

datatype anyval = NotAPointer | NilPointer | PointerTo gotype goval

definition Unmarshal ::
  "stdlib \<Rightarrow> string + (string \<times> string) list \<Rightarrow> anyval \<Rightarrow> anyval \<times> outcome" where
  "Unmarshal L parsed v =
     (case parsed of
        Inl err \<Rightarrow> (v, Error (DotenvError err))
      | Inr flatMap \<Rightarrow>
          (case v of
             PointerTo t elem \<Rightarrow>
               if Kind t \<noteq> KStruct then (v, Error (MustPointToStruct (Kind t)))
               else (case rangeLoop L t elem flatMap of
                       (elem', out) \<Rightarrow> (PointerTo t elem', out))
           | _ \<Rightarrow> (v, Error MustBeNonNilPointer)))"

section \<open>Evaluation on numerals\<close>

lemma replicate_numeral: "replicate (numeral v) x = x # replicate (numeral v - 1) x"
  by (simp add: numeral_eq_Suc)

lemma list_update_Cons_numeral: "(x # xs)[numeral v := y] = x # xs[numeral v - 1 := y]"
  by (simp add: numeral_eq_Suc)

section \<open>What the search returns\<close>

text \<open>A field matches a candidate when its normalised name or its normalised type name is the candidate.\<close>

definition fieldMatches :: "string \<times> gotype \<Rightarrow> string \<Rightarrow> bool" where
  "fieldMatches field c = (normalize (fst field) = c \<or> normalize (Name (snd field)) = c)"

lemma fieldLoop_Some_iff:
  "fieldLoop fs c k = Some i \<longleftrightarrow>
     k \<le> i \<and> i - k < length fs \<and> fieldMatches (fs ! (i - k)) c \<and> (\<forall>j < i - k. \<not> fieldMatches (fs ! j) c)"
proof (induction fs arbitrary: k)
  case Nil
  then show ?case by simp
next
  case (Cons f fs)
  show ?case
  proof (cases "fieldMatches f c")
    case True
    then have "fieldLoop (f # fs) c k = Some k" by (auto simp: fieldMatches_def)
    moreover have "(k \<le> i \<and> i - k < length (f # fs) \<and> fieldMatches ((f # fs) ! (i - k)) c \<and>
        (\<forall>j < i - k. \<not> fieldMatches ((f # fs) ! j) c)) \<longleftrightarrow> i = k"
      using True by (cases "i - k") auto
    ultimately show ?thesis by auto
  next
    case False
    then have eq: "fieldLoop (f # fs) c k = fieldLoop fs c (Suc k)" by (simp add: fieldMatches_def)
    have "(Suc k \<le> i \<and> i - Suc k < length fs \<and> fieldMatches (fs ! (i - Suc k)) c \<and>
        (\<forall>j < i - Suc k. \<not> fieldMatches (fs ! j) c)) \<longleftrightarrow>
        (k \<le> i \<and> i - k < length (f # fs) \<and> fieldMatches ((f # fs) ! (i - k)) c \<and>
        (\<forall>j < i - k. \<not> fieldMatches ((f # fs) ! j) c))" (is "?A \<longleftrightarrow> ?B")
    proof
      assume a: ?A
      then have ik: "i - k = Suc (i - Suc k)" by arith
      show ?B using a False unfolding ik by (auto simp: less_Suc_eq_0_disj)
    next
      assume b: ?B
      with False have "i - k \<noteq> 0" by (auto intro: ccontr)
      then have ik: "i - k = Suc (i - Suc k)" and ski: "Suc k \<le> i" by arith+
      show ?A using b ski unfolding ik by auto
    qed
    with eq Cons.IH[of "Suc k"] show ?thesis by simp
  qed
qed

lemma fieldLoop_None_iff:
  "fieldLoop fs c k = None \<longleftrightarrow> (\<forall>j < length fs. \<not> fieldMatches (fs ! j) c)"
  by (induction fs arbitrary: k) (auto simp: fieldMatches_def less_Suc_eq_0_disj)

text \<open>The candidate of a prefix length: the prefix joined with \<open>_\<close> and normalised.\<close>

definition candidate :: "string list \<Rightarrow> nat \<Rightarrow> string" where
  "candidate parts prefixLen = normalize (Join (take prefixLen parts))"

lemma prefixLoop_Some_iff:
  "prefixLoop fs parts k = Some (p, i) \<longleftrightarrow>
     0 < p \<and> p \<le> k \<and> fieldLoop fs (candidate parts p) 0 = Some i \<and>
     (\<forall>q. p < q \<and> q \<le> k \<longrightarrow> fieldLoop fs (candidate parts q) 0 = None)"
proof (induction k)
  case 0
  then show ?case by auto
next
  case (Suc k)
  show ?case
  proof (cases "fieldLoop fs (candidate parts (Suc k)) 0")
    case None
    then have "prefixLoop fs parts (Suc k) = prefixLoop fs parts k" by (simp add: candidate_def)
    moreover have "(\<forall>q. p < q \<and> q \<le> Suc k \<longrightarrow> fieldLoop fs (candidate parts q) 0 = None) \<longleftrightarrow>
       (\<forall>q. p < q \<and> q \<le> k \<longrightarrow> fieldLoop fs (candidate parts q) 0 = None)"
      using None by (auto simp: le_Suc_eq)
    moreover have "fieldLoop fs (candidate parts p) 0 = Some i \<Longrightarrow> p \<le> Suc k \<longleftrightarrow> p \<le> k"
      using None by (auto simp: le_Suc_eq)
    ultimately show ?thesis using Suc.IH by auto
  next
    case (Some j)
    then have "prefixLoop fs parts (Suc k) = Some (Suc k, j)" by (simp add: candidate_def)
    moreover have "(0 < p \<and> p \<le> Suc k \<and> fieldLoop fs (candidate parts p) 0 = Some i \<and>
     (\<forall>q. p < q \<and> q \<le> Suc k \<longrightarrow> fieldLoop fs (candidate parts q) 0 = None)) \<longleftrightarrow> p = Suc k \<and> i = j"
      using Some by (cases "p = Suc k") auto
    ultimately show ?thesis by auto
  qed
qed

lemma prefixLoop_None_iff:
  "prefixLoop fs parts k = None \<longleftrightarrow> (\<forall>q. 0 < q \<and> q \<le> k \<longrightarrow> fieldLoop fs (candidate parts q) 0 = None)"
proof (induction k)
  case 0
  then show ?case by simp
next
  case (Suc k)
  show ?case
  proof (cases "fieldLoop fs (candidate parts (Suc k)) 0")
    case None
    then have "prefixLoop fs parts (Suc k) = prefixLoop fs parts k" by (simp add: candidate_def)
    then show ?thesis using Suc.IH None by (auto simp: le_Suc_eq)
  next
    case (Some j)
    then have "prefixLoop fs parts (Suc k) = Some (Suc k, j)" by (simp add: candidate_def)
    then show ?thesis using Some by auto
  qed
qed

text \<open>The equations that evaluate the decoder on a concrete input.\<close>

lemmas decoder_eval =
  assignValue.simps assignField.simps normalize_def ToLower_def toLowerByte_def Atoi_def
  ParseInt_def ParseUint_def ParseBool_def isDigit_def digitVal_def decimal_def getFieldValue_def
  setField_def setWithReflect_def setMapValue_def SetMapIndex_def isEmptyInterface_def
  Unmarshal_def duration_eval replicate_numeral list_update_Cons_numeral

section \<open>The claims\<close>

subsection \<open>C1: longest prefix first, then declaration order\<close>

text \<open>
  C1. The search of \<^verbatim>\<open>assignValue\<close> over the segments \<open>parts\<close> stops at prefix length \<open>p\<close>
  and field \<open>i\<close> exactly when \<open>p\<close> is the greatest length from \<open>len(parts)\<close> down to 1 whose
  joined and normalised prefix matches some field, and \<open>i\<close> is the first field in
  declaration order that matches at that length: a field that matches at a longer prefix
  wins over every field that matches only at a shorter one. The call then commits to
  that field: its result is the result of the loop body for that field and the leftover
  \<open>drop p parts\<close>, and no shorter prefix is tried.
\<close>

theorem longest_prefix_first_declared_wins:
  "(prefixLoop fs parts (length parts) = Some (p, i) \<longleftrightarrow>
      0 < p \<and> p \<le> length parts \<and> i < length fs \<and>
      fieldMatches (fs ! i) (candidate parts p) \<and>
      (\<forall>j < i. \<not> fieldMatches (fs ! j) (candidate parts p)) \<and>
      (\<forall>q j. p < q \<and> q \<le> length parts \<and> j < length fs \<longrightarrow>
         \<not> fieldMatches (fs ! j) (candidate parts q)))
   \<and> (prefixLoop fs parts (length parts) = Some (p, i) \<longrightarrow>
        assignValue L (TStruct n fs) v parts rawVal =
          (case assignField L (fs ! i) (getFieldValue v i) (drop p parts) rawVal of
             (fieldVal, out) \<Rightarrow> (setField v i fieldVal, out)))"
proof
  show "prefixLoop fs parts (length parts) = Some (p, i) \<longleftrightarrow>
      0 < p \<and> p \<le> length parts \<and> i < length fs \<and>
      fieldMatches (fs ! i) (candidate parts p) \<and>
      (\<forall>j < i. \<not> fieldMatches (fs ! j) (candidate parts p)) \<and>
      (\<forall>q j. p < q \<and> q \<le> length parts \<and> j < length fs \<longrightarrow>
         \<not> fieldMatches (fs ! j) (candidate parts q))"
    unfolding prefixLoop_Some_iff fieldLoop_Some_iff fieldLoop_None_iff by auto
next
  show "prefixLoop fs parts (length parts) = Some (p, i) \<longrightarrow>
        assignValue L (TStruct n fs) v parts rawVal =
          (case assignField L (fs ! i) (getFieldValue v i) (drop p parts) rawVal of
             (fieldVal, out) \<Rightarrow> (setField v i fieldVal, out))"
  proof
    assume a: "prefixLoop fs parts (length parts) = Some (p, i)"
    then have "parts \<noteq> []" using prefixLoop_bounds by fastforce
    with a show "assignValue L (TStruct n fs) v parts rawVal =
          (case assignField L (fs ! i) (getFieldValue v i) (drop p parts) rawVal of
             (fieldVal, out) \<Rightarrow> (setField v i fieldVal, out))"
      by (simp add: assignValue.simps)
  qed
qed

text \<open>
  The key \<open>A_B\<close> against a record with a nested record \<open>A\<close> holding \<open>B\<close>, a field of the
  type named \<open>AB\<close> and a field named \<open>AB\<close>: the whole key matches at length 2, the first
  of the two fields matching there is written, the nested path is not taken.
\<close>

definition abFields :: "(string \<times> gotype) list" where
  "abFields = [(''A'', TStruct ''Inner'' [(''B'', TBasic ''string'' KString)]),
               (''First'', TBasic ''AB'' KString),
               (''AB'', TBasic ''string'' KString)]"

theorem longest_prefix_first_declared_wins_witness:
  "prefixLoop abFields [''A'', ''B''] (length [''A'', ''B'']) = Some (2, 1)
   \<and> (\<forall>L. assignValue L (TStruct ''T'' abFields) (zero (TStruct ''T'' abFields)) [''A'', ''B''] ''x''
        = (VStruct [VStruct [VString []], VString ''x'', VString []], Success))"
proof -
  have m: "prefixLoop abFields [''A'', ''B''] (length [''A'', ''B'']) = Some (2, 1)"
    by (simp add: abFields_def normalize_def ToLower_def toLowerByte_def numeral_2_eq_2)
  have "assignValue L (TStruct ''T'' abFields) (zero (TStruct ''T'' abFields)) [''A'', ''B''] ''x''
        = (VStruct [VStruct [VString []], VString ''x'', VString []], Success)" for L
    using longest_prefix_first_declared_wins
            [of abFields "[''A'', ''B'']" 2 1 L "''T''" "zero (TStruct ''T'' abFields)" "''x''"] m
    by (simp add: abFields_def assignField.simps getFieldValue_def setField_def setWithReflect_def)
  with m show ?thesis by blast
qed

subsection \<open>C2: what the field resolver returns\<close>

text \<open>
  The resolver as the claim words it: the first field whose normalised name is the
  candidate and, only when no field's name is, the first field whose normalised type
  name is the candidate.
\<close>

fun firstByName :: "(string \<times> gotype) list \<Rightarrow> string \<Rightarrow> nat \<Rightarrow> nat option" where
  "firstByName [] c i = None"
| "firstByName (field # rest) c i =
     (if normalize (fst field) = c then Some i else firstByName rest c (Suc i))"

fun firstByTypeName :: "(string \<times> gotype) list \<Rightarrow> string \<Rightarrow> nat \<Rightarrow> nat option" where
  "firstByTypeName [] c i = None"
| "firstByTypeName (field # rest) c i =
     (if normalize (Name (snd field)) = c then Some i else firstByTypeName rest c (Suc i))"

definition nameThenTypeResolver :: "(string \<times> gotype) list \<Rightarrow> string \<Rightarrow> nat option" where
  "nameThenTypeResolver fs c =
     (case firstByName fs c 0 of
        Some i \<Rightarrow> Some i
      | None \<Rightarrow> firstByTypeName fs c 0)"

text \<open>
  A record whose first field has the type named \<open>Port\<close> and whose second field is named
  \<open>Port\<close>: for the candidate of the key \<open>PORT\<close> the source's loop stops at the first
  field, on its type name; the resolver of the claim returns the second.
\<close>

definition portFields :: "(string \<times> gotype) list" where
  "portFields = [(''Listen'', TBasic ''Port'' KInt), (''Port'', TBasic ''int'' KInt)]"

theorem type_match_before_name_match_counterexample:
  "fieldLoop portFields (normalize ''PORT'') 0 = Some 0
   \<and> nameThenTypeResolver portFields (normalize ''PORT'') = Some 1
   \<and> fieldLoop portFields (normalize ''PORT'') 0
       \<noteq> nameThenTypeResolver portFields (normalize ''PORT'')"
  by (simp add: portFields_def nameThenTypeResolver_def normalize_def ToLower_def toLowerByte_def)

text \<open>
  C2, amended. The inner loop returns the first field in declaration order whose
  normalised name or normalised declared-type name is the candidate, the two tests made
  on each field in turn: a type-name match on an earlier field wins over a name match on
  a later one. It returns nothing exactly when no field matches either way.
\<close>

theorem first_field_matching_name_or_type:
  "(fieldLoop fs c 0 = Some i \<longleftrightarrow>
      i < length fs
      \<and> (normalize (fst (fs ! i)) = c \<or> normalize (Name (snd (fs ! i))) = c)
      \<and> (\<forall>j < i. normalize (fst (fs ! j)) \<noteq> c \<and> normalize (Name (snd (fs ! j))) \<noteq> c))
   \<and> (fieldLoop fs c 0 = None \<longleftrightarrow>
      (\<forall>j < length fs. normalize (fst (fs ! j)) \<noteq> c \<and> normalize (Name (snd (fs ! j))) \<noteq> c))"
  unfolding fieldLoop_Some_iff fieldLoop_None_iff fieldMatches_def by auto

theorem first_field_matching_name_or_type_witness:
  "fieldLoop portFields ''port'' 0 = Some 0"
proof -
  have a: "0 < length portFields"
    by (simp add: portFields_def)
  have b: "normalize (Name (snd (portFields ! 0))) = ''port''"
    by (simp add: portFields_def normalize_def ToLower_def toLowerByte_def)
  show ?thesis
    using first_field_matching_name_or_type [of portFields "''port''" 0] a b by simp
qed

subsection \<open>C9: durations\<close>

text \<open>
  The duration grammar in the words of the specification: a literal is one or more
  quantities, each a magnitude (digits, with an optional fraction after a point, and at
  least one digit in all) followed by a unit suffix; a sign may stand before it. A quantity
  is kept as its integer digits, its fraction digits if there is a point, and its unit. The
  value of a literal is the sum of its quantities, in nanoseconds.
\<close>

type_synonym quantity = "string \<times> string option \<times> string"

definition unitSuffixes :: "(string \<times> nat) list" where
  "unitSuffixes =
     [(''ns'', 1), (''us'', 1000), ([CHR 0xC2, CHR 0xB5, CHR ''s''], 1000),
      ([CHR 0xCE, CHR 0xBC, CHR ''s''], 1000), (''ms'', 1000000), (''s'', 1000000000),
      (''m'', 60 * 1000000000), (''h'', 3600 * 1000000000)]"

fun written :: "quantity \<Rightarrow> string" where
  "written (w, None, u) = w @ u"
| "written (w, Some f, u) = w @ CHR ''.'' # f @ u"

fun wellFormed :: "quantity \<Rightarrow> bool" where
  "wellFormed (w, None, u) =
     (w \<noteq> [] \<and> list_all isDigit w \<and> map_of unitSuffixes u \<noteq> None)"
| "wellFormed (w, Some f, u) =
     ((w \<noteq> [] \<or> f \<noteq> []) \<and> list_all isDigit w \<and> list_all isDigit f
      \<and> map_of unitSuffixes u \<noteq> None)"

fun fractionDigits :: "quantity \<Rightarrow> nat" where
  "fractionDigits (w, None, u) = 0"
| "fractionDigits (w, Some f, u) = length f"

fun nanoseconds :: "stdlib \<Rightarrow> quantity \<Rightarrow> nat" where
  "nanoseconds L (w, None, u) = decimal w * the (map_of unitSuffixes u)"
| "nanoseconds L (w, Some f, u) =
     decimal w * the (map_of unitSuffixes u)
     + (if decimal f > 0
        then fractionOfUnit L (decimal f) (the (map_of unitSuffixes u)) (10 ^ length f)
        else 0)"

definition durationLiteral :: "quantity list \<Rightarrow> string" where
  "durationLiteral qs = concat (map written qs)"

definition durationValue :: "stdlib \<Rightarrow> quantity list \<Rightarrow> nat" where
  "durationValue L qs = sum_list (map (nanoseconds L) qs)"

lemma unitMap_unitSuffixes: "unitMap u = map_of unitSuffixes u"
  by (simp add: unitMap_def unitSuffixes_def)

lemma digitVal_le: "isDigit c \<Longrightarrow> digitVal c \<le> 9"
  by (auto simp: isDigit_def digitVal_def)

lemma foldl_digits_ge: "x \<le> foldl (\<lambda>n c. n * 10 + digitVal c) x w"
proof (induction w arbitrary: x)
  case Nil
  then show ?case by simp
next
  case (Cons c cs)
  have "x \<le> x * 10 + digitVal c" by simp
  also have "\<dots> \<le> foldl (\<lambda>n c. n * 10 + digitVal c) (x * 10 + digitVal c) cs"
    by (rule Cons.IH)
  finally show ?case by simp
qed

lemma leadingInt_digits:
  assumes "list_all isDigit w" and "r = [] \<or> \<not> isDigit (hd r)"
    and "foldl (\<lambda>n c. n * 10 + digitVal c) x w \<le> 2 ^ 63"
  shows "leadingInt x (w @ r) = Some (foldl (\<lambda>n c. n * 10 + digitVal c) x w, r)"
  using assms
proof (induction w arbitrary: x)
  case Nil
  then show ?case by (cases r) simp_all
next
  case (Cons c cs)
  have "x * 10 + digitVal c \<le> foldl (\<lambda>n c. n * 10 + digitVal c) (x * 10 + digitVal c) cs"
    by (rule foldl_digits_ge)
  with Cons.prems(3) have b: "x * 10 + digitVal c \<le> 2 ^ 63" by simp
  then have a: "\<not> x > 2 ^ 63 div 10" by simp
  show ?case
    using Cons a b by simp
qed

lemma digits_below_power:
  "list_all isDigit w \<Longrightarrow> x < 10 ^ k
   \<Longrightarrow> foldl (\<lambda>n c. n * 10 + digitVal c) x w < 10 ^ (k + length w)"
proof (induction w arbitrary: x k)
  case Nil
  then show ?case by simp
next
  case (Cons c cs)
  have "digitVal c \<le> 9"
    using Cons.prems(1) by (simp add: digitVal_le)
  then have "x * 10 + digitVal c < 10 ^ Suc k"
    using Cons.prems(2) by simp
  from Cons.IH [OF _ this] Cons.prems(1) show ?case by simp
qed

lemma leadingFraction_digits:
  assumes "list_all isDigit f" and "r = [] \<or> \<not> isDigit (hd r)"
    and "x < 10 ^ k" and "k + length f \<le> 18"
  shows "leadingFraction x sc False (f @ r)
           = (foldl (\<lambda>n c. n * 10 + digitVal c) x f, sc * 10 ^ length f, r)"
  using assms
proof (induction f arbitrary: x sc k)
  case Nil
  then show ?case by (cases r) simp_all
next
  case (Cons c cs)
  have c9: "digitVal c \<le> 9"
    using Cons.prems(1) by (simp add: digitVal_le)
  have "k \<le> 17" using Cons.prems(4) by simp
  then have "(10::nat) ^ k \<le> 10 ^ 17"
    by (intro power_increasing) simp_all
  with Cons.prems(3) have x: "x < 10 ^ 17" by simp
  then have a: "\<not> x > (2 ^ 63 - 1) div 10" by simp
  have b: "\<not> x * 10 + digitVal c > 2 ^ 63" using x c9 by simp
  have n: "x * 10 + digitVal c < 10 ^ Suc k"
    using Cons.prems(3) c9 by simp
  have "leadingFraction (x * 10 + digitVal c) (sc * 10) False (cs @ r)
          = (foldl (\<lambda>n c. n * 10 + digitVal c) (x * 10 + digitVal c) cs, sc * 10 * 10 ^ length cs, r)"
    using Cons.prems by (intro Cons.IH [OF _ _ n]) simp_all
  then show ?case
    using Cons.prems(1) a b by (simp add: mult.assoc)
qed

lemma unitMap_Some:
  "unitMap u = Some unit \<Longrightarrow>
     u \<noteq> [] \<and> (\<forall>c \<in> set u. \<not> (c = CHR ''.'' \<or> isDigit c)) \<and> unit > 0"
  by (auto simp: unitMap_def isDigit_def split: if_splits)

lemma unit_scan:
  assumes "\<forall>c \<in> set u. P c" and "r = [] \<or> \<not> P (hd r)"
  shows "takeWhile P (u @ r) = u" and "dropWhile P (u @ r) = r"
  using assms by (cases r; simp add: takeWhile_append2 dropWhile_append2)+


lemma leadingInt_decimal:
  assumes "list_all isDigit w" and "r = [] \<or> \<not> isDigit (hd r)" and "decimal w \<le> 2 ^ 63"
  shows "leadingInt 0 (w @ r) = Some (decimal w, r)"
  using leadingInt_digits [OF assms(1,2), of 0] assms(3) by (simp add: decimal_def)

lemma leadingFraction_decimal:
  assumes "list_all isDigit f" and "r = [] \<or> \<not> isDigit (hd r)" and "length f \<le> 18"
  shows "leadingFraction 0 1 False (f @ r) = (decimal f, 10 ^ length f, r)"
  using leadingFraction_digits [OF assms(1,2), of 0 0 1] assms(3) by (simp add: decimal_def)

lemma durationLoop_quantity:
  assumes wf: "wellFormed q" and short: "fractionDigits q \<le> 18"
    and r: "r = [] \<or> hd r = CHR ''.'' \<or> isDigit (hd r)"
    and range: "d + nanoseconds L q \<le> 2 ^ 63"
  shows "durationLoop L d (written q @ r) = durationLoop L (d + nanoseconds L q) r"
proof -
  obtain w fr u where q: "q = (w, fr, u)" by (cases q)
  from wf q obtain unit where um: "unitMap u = Some unit"
    by (cases fr) (auto simp: unitMap_unitSuffixes)
  then have us: "map_of unitSuffixes u = Some unit"
    by (simp add: unitMap_unitSuffixes)
  note U = unitMap_Some [OF um]
  have scan: "takeWhile (\<lambda>c. \<not> (c = CHR ''.'' \<or> isDigit c)) (u @ r) = u"
    "dropWhile (\<lambda>c. \<not> (c = CHR ''.'' \<or> isDigit c)) (u @ r) = r"
    using unit_scan [of u "\<lambda>c. \<not> (c = CHR ''.'' \<or> isDigit c)" r] U r by auto
  have dw: "list_all isDigit w" using wf q by (cases fr) auto
  have wle: "decimal w * unit \<le> 2 ^ 63" using range q us by (cases fr) auto
  have "decimal w * 1 \<le> decimal w * unit"
    using U by (intro mult_le_mono2) simp
  then have "decimal w \<le> decimal w * unit" by simp
  from this wle have wv: "decimal w \<le> 2 ^ 63" by (rule order_trans)
  have vcheck: "\<not> decimal w > 2 ^ 63 div unit"
    using wle U by (simp add: less_eq_div_iff_mult_less_eq not_less)
  have hu: "hd (u @ r) \<noteq> CHR ''.''" "\<not> isDigit (hd (u @ r))" "u \<noteq> []"
    using U by (cases u; simp)+
  show ?thesis
  proof (cases fr)
    case None
    then have w: "w \<noteq> []" using wf q by simp
    then have hw: "isDigit (hd (w @ u @ r))" "w @ u @ r \<noteq> []"
      using dw by (cases w; simp)+
    have li: "leadingInt 0 (w @ u @ r) = Some (decimal w, u @ r)"
      using hu by (intro leadingInt_decimal [OF dw _ wv]) simp
    have v: "d + decimal w * unit \<le> 2 ^ 63"
      using range q us None by simp
    show ?thesis
      unfolding q None
      apply (subst durationLoop.simps)
      using hw li hu scan um vcheck v w
      apply (simp add: Let_def us)
      done
  next
    case (Some f)
    have df: "list_all isDigit f" "length f \<le> 18" and wf': "w \<noteq> [] \<or> f \<noteq> []"
      using wf short q Some by auto
    have hw: "hd (w @ CHR ''.'' # f @ u @ r) = CHR ''.'' \<or> isDigit (hd (w @ CHR ''.'' # f @ u @ r))"
      using dw by (cases w) simp_all
    have li: "leadingInt 0 (w @ CHR ''.'' # f @ u @ r) = Some (decimal w, CHR ''.'' # f @ u @ r)"
      by (intro leadingInt_decimal [OF dw _ wv]) (simp add: isDigit_def)
    have lf: "leadingFraction 0 1 False (f @ u @ r) = (decimal f, 10 ^ length f, u @ r)"
      using hu by (intro leadingFraction_decimal [OF df(1) _ df(2)]) simp
    then have lf': "leadingFraction 0 (Suc 0) False (f @ u @ r) = (decimal f, 10 ^ length f, u @ r)"
      by simp
    define F where "F = fractionOfUnit L (decimal f) unit (10 ^ length f)"
    have n: "nanoseconds L (w, Some f, u) = decimal w * unit + (if decimal f > 0 then F else 0)"
      using us by (simp add: F_def)
    have v: "d + (decimal w * unit + (if decimal f > 0 then F else 0)) \<le> 2 ^ 63"
      using range q Some n by simp
    have m1: "decimal f > 0 \<Longrightarrow> (decimal w * unit + F) mod 2 ^ 64 = decimal w * unit + F"
      using v by simp
    have m2: "decimal f > 0 \<Longrightarrow> \<not> decimal w * unit + F > 2 ^ 63"
      using v by simp
    have m3: "(d + (decimal w * unit + (if decimal f > 0 then F else 0))) mod 2 ^ 64
                = d + (decimal w * unit + (if decimal f > 0 then F else 0))"
      using v by simp
    have pp: "\<not> (w = [] \<and> f = [])"
      using wf' by auto
    show ?thesis
    proof (cases "decimal f > 0")
      case True
      show ?thesis
        unfolding q Some n
        apply (subst durationLoop.simps)
        using hw True m1 [OF True] m2 [OF True] m3 scan v vcheck
        apply (simp add: Let_def li lf' pp hu um vcheck F_def [symmetric])
        done
    next
      case False
      show ?thesis
        unfolding q Some n
        apply (subst durationLoop.simps)
        using hw False m3 scan v vcheck
        apply (simp add: Let_def li lf' pp hu um vcheck)
        done
    qed
  qed
qed


lemma written_start:
  assumes "wellFormed q"
  shows "hd (written q @ r) = CHR ''.'' \<or> isDigit (hd (written q @ r))"
    and "2 \<le> length (written q)"
proof -
  obtain w fr u where q: "q = (w, fr, u)" by (cases q)
  from assms q obtain unit where "unitMap u = Some unit"
    by (cases fr) (auto simp: unitMap_unitSuffixes)
  from unitMap_Some [OF this] have u: "u \<noteq> []" by simp
  show "hd (written q @ r) = CHR ''.'' \<or> isDigit (hd (written q @ r))"
    using assms q by (cases fr; cases w) auto
  show "2 \<le> length (written q)"
    using assms q u by (cases fr; cases w; cases u) auto
qed

lemma durationLiteral_start:
  assumes "list_all wellFormed qs"
  shows "durationLiteral qs = [] \<or> hd (durationLiteral qs) = CHR ''.''
         \<or> isDigit (hd (durationLiteral qs))"
proof (cases qs)
  case Nil
  then show ?thesis by (simp add: durationLiteral_def)
next
  case (Cons q rest)
  then show ?thesis
    using assms written_start(1) [of q "durationLiteral rest"]
    by (simp add: durationLiteral_def)
qed

lemma durationLoop_Nil: "durationLoop L d [] = Some d"
  by (subst durationLoop.simps) simp

lemma durationLoop_literal:
  assumes "list_all wellFormed qs" and "\<forall>q \<in> set qs. fractionDigits q \<le> 18"
    and "d + durationValue L qs \<le> 2 ^ 63"
  shows "durationLoop L d (durationLiteral qs) = Some (d + durationValue L qs)"
  using assms
proof (induction qs arbitrary: d)
  case Nil
  then show ?case by (simp add: durationLiteral_def durationValue_def durationLoop_Nil)
next
  case (Cons q qs)
  have v: "durationValue L (q # qs) = nanoseconds L q + durationValue L qs"
    by (simp add: durationValue_def)
  have l: "durationLiteral (q # qs) = written q @ durationLiteral qs"
    by (simp add: durationLiteral_def)
  have "durationLoop L d (written q @ durationLiteral qs)
          = durationLoop L (d + nanoseconds L q) (durationLiteral qs)"
    using Cons.prems durationLiteral_start [of qs] unfolding v
    by (intro durationLoop_quantity) simp_all
  also have "\<dots> = Some (d + nanoseconds L q + durationValue L qs)"
    using Cons.prems unfolding v by (intro Cons.IH) simp_all
  finally show ?case
    unfolding l v by (simp add: add.assoc)
qed

lemma ParseDuration_literal:
  assumes "qs \<noteq> []" and "list_all wellFormed qs" and "\<forall>q \<in> set qs. fractionDigits q \<le> 18"
    and "durationValue L qs < 2 ^ 63"
  shows "ParseDuration L (durationLiteral qs) = Some (int (durationValue L qs))"
    and "ParseDuration L (CHR ''+'' # durationLiteral qs) = Some (int (durationValue L qs))"
    and "ParseDuration L (CHR ''-'' # durationLiteral qs) = Some (- int (durationValue L qs))"
proof -
  obtain q rest where qs: "qs = q # rest"
    using assms(1) by (cases qs) auto
  have "2 \<le> length (written q)"
    using assms(2) qs by (intro written_start(2)) simp
  then have len: "2 \<le> length (durationLiteral qs)"
    unfolding qs by (simp add: durationLiteral_def)
  then have ne: "durationLiteral qs \<noteq> []" "durationLiteral qs \<noteq> ''0''"
    by auto
  have hd: "hd (durationLiteral qs) \<noteq> CHR ''-''" "hd (durationLiteral qs) \<noteq> CHR ''+''"
    using durationLiteral_start [OF assms(2)] ne by (auto simp: isDigit_def)
  have loop: "durationLoop L 0 (durationLiteral qs) = Some (durationValue L qs)"
    using durationLoop_literal [OF assms(2,3), of 0 L] assms(4) by simp
  show "ParseDuration L (durationLiteral qs) = Some (int (durationValue L qs))"
    using ne hd loop assms(4) by (simp add: ParseDuration_def)
  show "ParseDuration L (CHR ''+'' # durationLiteral qs) = Some (int (durationValue L qs))"
    using ne hd loop assms(4) by (simp add: ParseDuration_def)
  show "ParseDuration L (CHR ''-'' # durationLiteral qs) = Some (- int (durationValue L qs))"
    using ne hd loop assms(4) by (simp add: ParseDuration_def)
qed


text \<open>Conversely, what the parser accepts is a literal of the grammar.\<close>

lemma leadingInt_shape:
  "leadingInt x s = Some (v, r) \<Longrightarrow> \<exists>w. s = w @ r \<and> list_all isDigit w"
proof (induction x s rule: leadingInt.induct)
  case (1 x)
  then show ?case by simp
next
  case (2 x c cs)
  show ?case
  proof (cases "isDigit c")
    case False
    with 2 show ?thesis by auto
  next
    case True
    with 2 obtain w where "cs = w @ r" "list_all isDigit w"
      by (auto split: if_splits)
    then have "c # cs = (c # w) @ r \<and> list_all isDigit (c # w)"
      using True by simp
    then show ?thesis by blast
  qed
qed

lemma leadingFraction_shape:
  "leadingFraction x sc ov s = (f, sc', r) \<Longrightarrow> \<exists>w. s = w @ r \<and> list_all isDigit w"
proof (induction x sc ov s rule: leadingFraction.induct)
  case (1 x scale overflow)
  then show ?case by simp
next
  case (2 x scale overflow c cs)
  show ?case
  proof (cases "isDigit c")
    case False
    with 2 show ?thesis by auto
  next
    case True
    with 2 obtain w where "cs = w @ r" "list_all isDigit w"
      by (auto split: if_splits)
    then have "c # cs = (c # w) @ r \<and> list_all isDigit (c # w)"
      using True by simp
    then show ?thesis by blast
  qed
qed

lemma durationLoop_Some:
  assumes "durationLoop L d s = Some d'" and "s \<noteq> []"
  shows "\<exists>v s1 s2 unit d1.
           leadingInt 0 s = Some (v, s1)
         \<and> (if s1 \<noteq> [] \<and> hd s1 = CHR ''.''
            then (\<exists>f scale. leadingFraction 0 1 False (tl s1) = (f, scale, s2))
                 \<and> (length s \<noteq> length s1 \<or> length (tl s1) \<noteq> length s2)
            else s2 = s1 \<and> length s \<noteq> length s1)
         \<and> takeWhile (\<lambda>c. \<not> (c = CHR ''.'' \<or> isDigit c)) s2 \<noteq> []
         \<and> unitMap (takeWhile (\<lambda>c. \<not> (c = CHR ''.'' \<or> isDigit c)) s2) = Some unit
         \<and> durationLoop L d1 (dropWhile (\<lambda>c. \<not> (c = CHR ''.'' \<or> isDigit c)) s2) = Some d'"
  using assms
  apply (subst (asm) durationLoop.simps)
  apply (simp add: Let_def split: if_splits option.splits prod.splits)
   apply blast+
  done

lemma durationLoop_shape:
  "durationLoop L d s = Some d' \<Longrightarrow> \<exists>qs. s = durationLiteral qs \<and> list_all wellFormed qs"
proof (induction "length s" arbitrary: s d rule: less_induct)
  case less
  show ?case
  proof (cases "s = []")
    case True
    then have "s = durationLiteral [] \<and> list_all wellFormed []"
      by (simp add: durationLiteral_def)
    then show ?thesis by blast
  next
    case False
    let ?P = "\<lambda>c. \<not> (c = CHR ''.'' \<or> isDigit c)"
    from durationLoop_Some [OF less.prems False] obtain v s1 s2 unit d1 where
      li: "leadingInt 0 s = Some (v, s1)"
      and fr: "if s1 \<noteq> [] \<and> hd s1 = CHR ''.''
               then (\<exists>f scale. leadingFraction 0 1 False (tl s1) = (f, scale, s2))
                    \<and> (length s \<noteq> length s1 \<or> length (tl s1) \<noteq> length s2)
               else s2 = s1 \<and> length s \<noteq> length s1"
      and u: "takeWhile ?P s2 \<noteq> []"
      and um: "unitMap (takeWhile ?P s2) = Some unit"
      and rest: "durationLoop L d1 (dropWhile ?P s2) = Some d'"
      by blast
    define u3 where "u3 = takeWhile ?P s2"
    define s3 where "s3 = dropWhile ?P s2"
    have s2: "s2 = u3 @ s3"
      by (simp add: u3_def s3_def)
    from leadingInt_shape [OF li] obtain w where w: "s = w @ s1" "list_all isDigit w"
      by blast
    have unit: "map_of unitSuffixes u3 \<noteq> None"
      using um by (simp add: unitMap_unitSuffixes u3_def)
    have "\<exists>q. wellFormed q \<and> s = written q @ s3"
    proof (cases "s1 \<noteq> [] \<and> hd s1 = CHR ''.''")
      case True
      with fr obtain f scale where
        lf: "leadingFraction 0 1 False (tl s1) = (f, scale, s2)"
        and digits: "length s \<noteq> length s1 \<or> length (tl s1) \<noteq> length s2"
        by auto
      from leadingFraction_shape [OF lf] obtain fd where fd: "tl s1 = fd @ s2" "list_all isDigit fd"
        by blast
      have s1: "s1 = CHR ''.'' # fd @ s2"
        using True fd(1) by (cases s1) auto
      have "w \<noteq> [] \<or> fd \<noteq> []"
        using digits w(1) fd(1) by auto
      then have "wellFormed (w, Some fd, u3)"
        using w(2) fd(2) unit by simp
      moreover have "s = written (w, Some fd, u3) @ s3"
        using w(1) s1 s2 by simp
      ultimately show ?thesis by blast
    next
      case False
      with fr have e: "s2 = s1" and "length s \<noteq> length s1"
        by auto
      then have "w \<noteq> []"
        using w(1) by auto
      then have "wellFormed (w, None, u3)"
        using w(2) unit by simp
      moreover have "s = written (w, None, u3) @ s3"
        using w(1) e s2 by simp
      ultimately show ?thesis by blast
    qed
    then obtain q where q: "wellFormed q" "s = written q @ s3"
      by blast
    have "2 \<le> length (written q)"
      using q(1) by (rule written_start(2))
    then have "length s3 < length s"
      using q(2) by auto
    from less.hyps [OF this rest [folded s3_def]] obtain qs where
      qs: "s3 = durationLiteral qs" "list_all wellFormed qs"
      by blast
    have "s = durationLiteral (q # qs) \<and> list_all wellFormed (q # qs)"
      using q qs by (simp add: durationLiteral_def)
    then show ?thesis by blast
  qed
qed

lemma ParseDuration_shape:
  assumes "ParseDuration L s = Some dur"
  shows "\<exists>sign body qs. s = sign @ body \<and> sign \<in> {[], ''+'', ''-''}
           \<and> (body = ''0'' \<or> qs \<noteq> [] \<and> list_all wellFormed qs \<and> body = durationLiteral qs)"
proof -
  define sign where "sign = (if s \<noteq> [] \<and> (hd s = CHR ''-'' \<or> hd s = CHR ''+'') then [hd s] else [])"
  define body where "body = (if s \<noteq> [] \<and> (hd s = CHR ''-'' \<or> hd s = CHR ''+'') then tl s else s)"
  have s: "s = sign @ body" "sign \<in> {[], ''+'', ''-''}"
    by (auto simp: sign_def body_def)
  show ?thesis
  proof (cases "body = ''0''")
    case True
    then show ?thesis using s by blast
  next
    case False
    with assms have ne: "body \<noteq> []" and "\<exists>d. durationLoop L 0 body = Some d"
      by (auto simp: ParseDuration_def Let_def body_def split: if_splits option.splits)
    then obtain d where "durationLoop L 0 body = Some d"
      by blast
    from durationLoop_shape [OF this] obtain qs where
      qs: "body = durationLiteral qs" "list_all wellFormed qs"
      by blast
    with ne have "qs \<noteq> []"
      by (auto simp: durationLiteral_def)
    then show ?thesis
      using s qs by blast
  qed
qed


text \<open>
  C9. A field of type \<^verbatim>\<open>time.Duration\<close> is written from \<^verbatim>\<open>time.ParseDuration\<close>, and that
  is the grammar of magnitudes with unit suffixes. Every literal of the grammar whose
  fractions have at most 18 digits and whose value fits an \<^verbatim>\<open>int64\<close> of nanoseconds is
  accepted, with or without a sign, and the field holds the sum of its quantities. Whatever
  is accepted is a signed literal of the grammar, or a signed \<open>0\<close>; everything else fails with
  the duration's coercion error and leaves the field as it was. So \<open>1h30m\<close> gives ninety
  minutes and \<open>5s\<close> five seconds; \<open>abc\<close>, and a magnitude with no unit, fail.
\<close>

theorem duration_field_coercion:
  "setBasicValue L TDuration fieldVal rawVal =
     (case ParseDuration L rawVal of
        None \<Rightarrow> (fieldVal, Error (CannotParseDuration rawVal))
      | Some dur \<Rightarrow> (VInt dur, Success))
   \<and> (qs \<noteq> [] \<and> list_all wellFormed qs \<and> (\<forall>q \<in> set qs. fractionDigits q \<le> 18)
        \<and> durationValue L qs < 2 ^ 63 \<longrightarrow>
        setBasicValue L TDuration fieldVal (durationLiteral qs)
          = (VInt (int (durationValue L qs)), Success)
      \<and> setBasicValue L TDuration fieldVal (CHR ''+'' # durationLiteral qs)
          = (VInt (int (durationValue L qs)), Success)
      \<and> setBasicValue L TDuration fieldVal (CHR ''-'' # durationLiteral qs)
          = (VInt (- int (durationValue L qs)), Success))
   \<and> (\<forall>w. setBasicValue L TDuration fieldVal rawVal = (w, Success) \<longrightarrow>
          (\<exists>sign body ts. rawVal = sign @ body \<and> sign \<in> {[], ''+'', ''-''}
             \<and> (body = ''0'' \<or> ts \<noteq> [] \<and> list_all wellFormed ts \<and> body = durationLiteral ts)))
   \<and> (\<forall>w out. setBasicValue L TDuration fieldVal rawVal = (w, out) \<and> out \<noteq> Success \<longrightarrow>
          w = fieldVal \<and> out = Error (CannotParseDuration rawVal))
   \<and> setBasicValue L TDuration fieldVal ''1h30m'' = (VInt (90 * 60 * 1000000000), Success)
   \<and> setBasicValue L TDuration fieldVal ''abc'' = (fieldVal, Error (CannotParseDuration ''abc''))
   \<and> ParseDuration L ''1h30m'' = Some (90 * 60 * 1000000000)
   \<and> ParseDuration L ''5s'' = Some (5 * 1000000000)
   \<and> ParseDuration L ''90'' = None
   \<and> ParseDuration L ''abc'' = None"
proof -
  have p1: "ParseDuration L ''1h30m'' = Some 5400000000000"
    by (simp add: duration_eval)
  have p2: "ParseDuration L ''5s'' = Some 5000000000"
    by (simp add: duration_eval)
  have p3: "ParseDuration L ''90'' = None"
    by (simp add: duration_eval)
  have p4: "ParseDuration L ''abc'' = None"
    by (simp add: duration_eval)
  have g: "setBasicValue L TDuration fieldVal r =
     (case ParseDuration L r of
        None \<Rightarrow> (fieldVal, Error (CannotParseDuration r))
      | Some dur \<Rightarrow> (VInt dur, Success))" for r
    by (simp add: setWithReflect_def split: option.split)
  have lit: "setBasicValue L TDuration fieldVal (durationLiteral qs)
          = (VInt (int (durationValue L qs)), Success)
      \<and> setBasicValue L TDuration fieldVal (CHR ''+'' # durationLiteral qs)
          = (VInt (int (durationValue L qs)), Success)
      \<and> setBasicValue L TDuration fieldVal (CHR ''-'' # durationLiteral qs)
          = (VInt (- int (durationValue L qs)), Success)"
    if "qs \<noteq> []" "list_all wellFormed qs" "\<forall>q \<in> set qs. fractionDigits q \<le> 18"
      "durationValue L qs < 2 ^ 63"
    unfolding g using ParseDuration_literal [OF that] by simp
  have shape: "\<exists>sign body ts. rawVal = sign @ body \<and> sign \<in> {[], ''+'', ''-''}
             \<and> (body = ''0'' \<or> ts \<noteq> [] \<and> list_all wellFormed ts \<and> body = durationLiteral ts)"
    if "setBasicValue L TDuration fieldVal rawVal = (w, Success)" for w
  proof -
    from that obtain dur where "ParseDuration L rawVal = Some dur"
      unfolding g by (cases "ParseDuration L rawVal") auto
    then show ?thesis by (rule ParseDuration_shape)
  qed
  have fails: "w = fieldVal \<and> out = Error (CannotParseDuration rawVal)"
    if "setBasicValue L TDuration fieldVal rawVal = (w, out)" "out \<noteq> Success" for w out
    using that unfolding g by (cases "ParseDuration L rawVal") auto
  show ?thesis
    unfolding p1 p2 p3 p4 using g [of rawVal] g [of "''1h30m''"] g [of "''abc''"] lit shape fails
    unfolding p1 p4 by (simp del: setBasicValue.simps)
qed

text \<open>
  The same at literals: \<open>1h30m\<close>, and \<open>-1.0h30m\<close> with a fraction, a sign and two
  quantities; and through the decoder's loop over the keys, for a record with one duration
  field.
\<close>

theorem duration_field_coercion_witness:
  "\<forall>L. setBasicValue L TDuration (VInt 0) ''1h30m'' = (VInt 5400000000000, Success)
      \<and> setBasicValue L TDuration (VInt 0) ''-1.0h30m'' = (VInt (- 5400000000000), Success)
      \<and> setBasicValue L TDuration (VInt 0) ''1500ms'' = (VInt 1500000000, Success)
      \<and> rangeLoop L (TStruct ''Config'' [(''Timeout'', TDuration)]) (VStruct [VInt 0])
           [(''TIMEOUT'', ''1h30m'')] = (VStruct [VInt 5400000000000], Success)
      \<and> rangeLoop L (TStruct ''Config'' [(''Timeout'', TDuration)]) (VStruct [VInt 0])
           [(''TIMEOUT'', ''abc'')]
         = (VStruct [VInt 0], Error (KeyError ''TIMEOUT'' (CannotParseDuration ''abc'')))"
proof
  fix L
  have a: "setBasicValue L TDuration (VInt 0) ''1h30m'' = (VInt 5400000000000, Success)"
    using duration_field_coercion [of L "VInt 0" "''x''" "[(''1'', None, ''h''), (''30'', None, ''m'')]"]
    by (simp add: durationLiteral_def durationValue_def unitSuffixes_def decimal_def
          isDigit_def digitVal_def del: setBasicValue.simps)
  have b: "setBasicValue L TDuration (VInt 0) ''-1.0h30m'' = (VInt (- 5400000000000), Success)"
    using duration_field_coercion [of L "VInt 0" "''x''" "[(''1'', Some ''0'', ''h''), (''30'', None, ''m'')]"]
    by (simp add: durationLiteral_def durationValue_def unitSuffixes_def decimal_def
          isDigit_def digitVal_def del: setBasicValue.simps)
  have c: "setBasicValue L TDuration (VInt 0) ''1500ms'' = (VInt 1500000000, Success)"
    using duration_field_coercion [of L "VInt 0" "''x''" "[(''1500'', None, ''ms'')]"]
    by (simp add: durationLiteral_def durationValue_def unitSuffixes_def decimal_def
          isDigit_def digitVal_def del: setBasicValue.simps)
  have d: "setBasicValue L TDuration (VInt 0) ''abc'' = (VInt 0, Error (CannotParseDuration ''abc''))"
    using duration_field_coercion [of L "VInt 0" "''x''" "[]"] by (simp del: setBasicValue.simps)
  have e: "rangeLoop L (TStruct ''Config'' [(''Timeout'', TDuration)]) (VStruct [VInt 0])
           [(''TIMEOUT'', ''1h30m'')] = (VStruct [VInt 5400000000000], Success)
      \<and> rangeLoop L (TStruct ''Config'' [(''Timeout'', TDuration)]) (VStruct [VInt 0])
           [(''TIMEOUT'', ''abc'')]
         = (VStruct [VInt 0], Error (KeyError ''TIMEOUT'' (CannotParseDuration ''abc'')))"
    using a d
    by (simp add: assignValue.simps assignField.simps normalize_def ToLower_def toLowerByte_def
          getFieldValue_def setField_def del: setBasicValue.simps)
  show "setBasicValue L TDuration (VInt 0) ''1h30m'' = (VInt 5400000000000, Success)
      \<and> setBasicValue L TDuration (VInt 0) ''-1.0h30m'' = (VInt (- 5400000000000), Success)
      \<and> setBasicValue L TDuration (VInt 0) ''1500ms'' = (VInt 1500000000, Success)
      \<and> rangeLoop L (TStruct ''Config'' [(''Timeout'', TDuration)]) (VStruct [VInt 0])
           [(''TIMEOUT'', ''1h30m'')] = (VStruct [VInt 5400000000000], Success)
      \<and> rangeLoop L (TStruct ''Config'' [(''Timeout'', TDuration)]) (VStruct [VInt 0])
           [(''TIMEOUT'', ''abc'')]
         = (VStruct [VInt 0], Error (KeyError ''TIMEOUT'' (CannotParseDuration ''abc'')))"
    using a b c e by (simp del: setBasicValue.simps)
qed

subsection \<open>C10: a whole key that lands on a composite field\<close>

text \<open>
  The types the terminal coercion can write: the scalar kinds of its switch, the
  duration, and pointers to such types, at any depth.
\<close>

fun basicType :: "gotype \<Rightarrow> bool" where
  "basicType (TBasic n k) =
     (k \<in> {KString, KBool, KInt, KInt8, KInt16, KInt32, KInt64, KUint, KUint8, KUint16, KUint32,
            KUint64, KFloat32, KFloat64, KComplex64, KComplex128})"
| "basicType TDuration = True"
| "basicType (TPtr n t) = basicType t"
| "basicType t = False"

lemma setBasicValue_Success_basicType:
  "snd (setBasicValue L t fieldVal rawVal) = Success \<Longrightarrow> basicType t"
  by (induction L t fieldVal rawVal rule: setBasicValue.induct)
     (auto split: if_splits option.splits prod.splits)

lemma setField_getFieldValue: "setField v i (getFieldValue v i) = v"
  by (cases v) (simp_all add: setField_def getFieldValue_def)

lemma setBasicValue_composite:
  "Kind t \<in> {KMap, KSlice, KStruct} \<Longrightarrow>
   setBasicValue L t fieldVal rawVal = (fieldVal, Error (UnsupportedKind (Kind t) rawVal))"
  by (cases t) auto

text \<open>
  C10. When the match consumes every segment of a key and the matched field is a map, a
  slice or a nested struct, \<^verbatim>\<open>assignValue\<close> fails with the unsupported-kind error and
  leaves the record as it was; the decoder reports it wrapped with the key and stops.
  The key is neither assigned nor ignored. More generally the terminal coercion succeeds
  only on a scalar kind, a duration, or a chain of pointers to one.
\<close>

theorem whole_key_on_composite_field_unsupported:
  assumes "prefixLoop fs (Split rawKey) (length (Split rawKey)) = Some (length (Split rawKey), i)"
    and "Kind (snd (fs ! i)) \<in> {KMap, KSlice, KStruct}"
  shows "assignValue L (TStruct n fs) v (Split rawKey) rawVal
           = (v, Error (UnsupportedKind (Kind (snd (fs ! i))) rawVal))
       \<and> rangeLoop L (TStruct n fs) v ((rawKey, rawVal) # rest)
           = (v, Error (KeyError rawKey (UnsupportedKind (Kind (snd (fs ! i))) rawVal)))
       \<and> (\<forall>t fieldVal. snd (setBasicValue L t fieldVal rawVal) = Success \<longrightarrow> basicType t)"
proof -
  from assms(1) have ne: "Split rawKey \<noteq> []"
    using prefixLoop_bounds by fastforce
  have f: "assignField L (fs ! i) (getFieldValue v i) [] rawVal
             = (getFieldValue v i, Error (UnsupportedKind (Kind (snd (fs ! i))) rawVal))"
    using assms(2) by (simp add: assignField.simps setBasicValue_composite del: setBasicValue.simps)
  have a: "assignValue L (TStruct n fs) v (Split rawKey) rawVal
           = (v, Error (UnsupportedKind (Kind (snd (fs ! i))) rawVal))"
    using assms(1) ne f by (simp add: assignValue.simps setField_getFieldValue)
  have r: "rangeLoop L (TStruct n fs) v ((rawKey, rawVal) # rest)
           = (v, Error (KeyError rawKey (UnsupportedKind (Kind (snd (fs ! i))) rawVal)))"
    using a ne by simp
  show ?thesis
    using a r setBasicValue_Success_basicType by blast
qed

text \<open>The key \<open>TAGS\<close> against a record whose field \<open>Tags\<close> is a map.\<close>

definition tagsFields :: "(string \<times> gotype) list" where
  "tagsFields = [(''Tags'', TMap [] (TBasic ''string'' KString) (TBasic ''string'' KString))]"

theorem whole_key_on_composite_field_unsupported_witness:
  "\<forall>L. rangeLoop L (TStruct ''Config'' tagsFields) (VStruct [VMap None]) [(''TAGS'', ''x'')]
          = (VStruct [VMap None], Error (KeyError ''TAGS'' (UnsupportedKind KMap ''x'')))"
proof
  fix L
  have p: "prefixLoop tagsFields (Split ''TAGS'') (length (Split ''TAGS'')) = Some (length (Split ''TAGS''), 0)"
    by (simp add: tagsFields_def normalize_def ToLower_def toLowerByte_def)
  have k: "Kind (snd (tagsFields ! 0)) \<in> {KMap, KSlice, KStruct}"
    by (simp add: tagsFields_def)
  have k': "Kind (snd (tagsFields ! 0)) = KMap"
    by (simp add: tagsFields_def)
  show "rangeLoop L (TStruct ''Config'' tagsFields) (VStruct [VMap None]) [(''TAGS'', ''x'')]
          = (VStruct [VMap None], Error (KeyError ''TAGS'' (UnsupportedKind KMap ''x'')))"
    using whole_key_on_composite_field_unsupported [OF p k, of L "''Config''" "VStruct [VMap None]" "''x''" "[]"]
    unfolding k' by blast
qed

subsection \<open>C4: the sequence index\<close>

text \<open>A record with one field, \<^verbatim>\<open>Items []string\<close>.\<close>

definition itemsType :: gotype where
  "itemsType = TStruct ''Config'' [(''Items'', TSlice [] (TBasic ''string'' KString))]"

















text \<open>
  \<^verbatim>\<open>assignValue\<close> itself has no check for a negative index: handed the segment \<open>-1\<close>,
  which no key of the parser has, it stops in the panic of \<^verbatim>\<open>fieldVal.Index(-1)\<close>.
\<close>

lemma assignValue_negative_index:
  "assignValue L itemsType (zero itemsType) [''ITEMS'', ''-1''] ''x''
     = (VStruct [VSlice (Some [])], Panic SliceIndexOutOfRange)"
  by (simp add: itemsType_def decoder_eval)

subsection \<open>C8: the first error ends the decode\<close>

text \<open>\<^verbatim>\<open>strings.Split\<close> never returns an empty list, so no key is skipped.\<close>

lemma Split_not_Nil: "Split s \<noteq> []"
  by (induction s) (auto split: list.splits)

lemma rangeLoop_append:
  "rangeLoop L t v pre = (v1, Success) \<Longrightarrow> rangeLoop L t v (pre @ rest) = rangeLoop L t v1 rest"
proof (induction pre arbitrary: v)
  case Nil
  then show ?case by simp
next
  case (Cons kv pre)
  obtain k r where kv: "kv = (k, r)" by (cases kv)
  obtain w out where a: "assignValue L t v (Split k) r = (w, out)"
    by (cases "assignValue L t v (Split k) r")
  from Cons.prems kv a have out: "out = Success"
    by (cases out) (auto simp: Split_not_Nil)
  with Cons.prems kv a have "rangeLoop L t w pre = (v1, Success)"
    by (simp add: Split_not_Nil)
  then have "rangeLoop L t w (pre @ rest) = rangeLoop L t v1 rest"
    by (rule Cons.IH)
  with kv a out show ?case by (simp add: Split_not_Nil)
qed

lemma rangeLoop_Error_first:
  "rangeLoop L t v flatMap = (v', Error err) \<Longrightarrow>
   \<exists>pre rawKey rawVal post v1 e.
     flatMap = pre @ (rawKey, rawVal) # post \<and> rangeLoop L t v pre = (v1, Success) \<and>
     assignValue L t v1 (Split rawKey) rawVal = (v', Error e) \<and> err = KeyError rawKey e"
proof (induction flatMap arbitrary: v)
  case Nil
  then show ?case by simp
next
  case (Cons kv flatMap)
  obtain k r where kv: "kv = (k, r)" by (cases kv)
  obtain w out where a: "assignValue L t v (Split k) r = (w, out)"
    by (cases "assignValue L t v (Split k) r")
  show ?case
  proof (cases out)
    case Success
    with Cons.prems kv a have "rangeLoop L t w flatMap = (v', Error err)"
      by (simp add: Split_not_Nil)
    from Cons.IH[OF this] obtain pre rawKey rawVal post v1 e where
      h: "flatMap = pre @ (rawKey, rawVal) # post" "rangeLoop L t w pre = (v1, Success)"
         "assignValue L t v1 (Split rawKey) rawVal = (v', Error e)" "err = KeyError rawKey e"
      by blast
    have "rangeLoop L t v ((k, r) # pre) = (v1, Success)"
      using a Success h(2) by (simp add: Split_not_Nil)
    moreover have "kv # flatMap = ((k, r) # pre) @ (rawKey, rawVal) # post"
      using kv h(1) by simp
    ultimately show ?thesis using h(3,4) by blast
  next
    case (Error e)
    with Cons.prems kv a have "v' = w" "err = KeyError k e"
      by (simp_all add: Split_not_Nil)
    moreover have "rangeLoop L t v [] = (v, Success)" by simp
    moreover have "kv # flatMap = [] @ (k, r) # flatMap" using kv by simp
    ultimately show ?thesis using a Error by blast
  next
    case (Panic p)
    with Cons.prems kv a show ?thesis by (simp add: Split_not_Nil)
  qed
qed

text \<open>
  C8. The decoder fails fast. When the keys before \<open>rawKey\<close> succeed and \<open>rawKey\<close> fails
  with the error \<open>e\<close>, the decode ends there with \<open>KeyError rawKey e\<close>, the error that
  names the key and wraps its cause, whatever keys come after: they are not processed and
  the destination is as the failing key left it. Conversely every error of the loop is
  the error of the first failing key, wrapped with that key.
\<close>

theorem first_key_error_aborts_decode:
  "(rangeLoop L t v pre = (v1, Success) \<and> assignValue L t v1 (Split rawKey) rawVal = (v2, Error e)
      \<longrightarrow> rangeLoop L t v (pre @ (rawKey, rawVal) # post) = (v2, Error (KeyError rawKey e))
        \<and> (Kind t = KStruct \<longrightarrow>
             Unmarshal L (Inr (pre @ (rawKey, rawVal) # post)) (PointerTo t v)
               = (PointerTo t v2, Error (KeyError rawKey e))))
   \<and> (rangeLoop L t v flatMap = (v', Error err) \<longrightarrow>
        (\<exists>pre rawKey rawVal post v1 e.
           flatMap = pre @ (rawKey, rawVal) # post \<and> rangeLoop L t v pre = (v1, Success) \<and>
           assignValue L t v1 (Split rawKey) rawVal = (v', Error e) \<and> err = KeyError rawKey e))"
proof (intro conjI impI)
  assume h: "rangeLoop L t v pre = (v1, Success) \<and> assignValue L t v1 (Split rawKey) rawVal = (v2, Error e)"
  then have "rangeLoop L t v (pre @ (rawKey, rawVal) # post) = rangeLoop L t v1 ((rawKey, rawVal) # post)"
    using rangeLoop_append by blast
  with h show r: "rangeLoop L t v (pre @ (rawKey, rawVal) # post) = (v2, Error (KeyError rawKey e))"
    by (simp add: Split_not_Nil)
  assume "Kind t = KStruct"
  with r show "Unmarshal L (Inr (pre @ (rawKey, rawVal) # post)) (PointerTo t v)
               = (PointerTo t v2, Error (KeyError rawKey e))"
    by (simp add: Unmarshal_def)
next
  assume "rangeLoop L t v flatMap = (v', Error err)"
  then show "\<exists>pre rawKey rawVal post v1 e.
           flatMap = pre @ (rawKey, rawVal) # post \<and> rangeLoop L t v pre = (v1, Success) \<and>
           assignValue L t v1 (Split rawKey) rawVal = (v', Error e) \<and> err = KeyError rawKey e"
    by (rule rangeLoop_Error_first)
qed

text \<open>
  \<open>PORT=http\<close> fails on an integer field; \<open>HOST\<close>, visited after it, is not written,
  though alone it would be.
\<close>

definition portHostType :: gotype where
  "portHostType = TStruct ''Config'' [(''Port'', TBasic ''int'' KInt), (''Host'', TBasic ''string'' KString)]"

theorem first_key_error_aborts_decode_witness:
  "\<forall>L. Unmarshal L (Inr [(''PORT'', ''http''), (''HOST'', ''example'')])
           (PointerTo portHostType (VStruct [VInt 0, VString []]))
       = (PointerTo portHostType (VStruct [VInt 0, VString []]),
          Error (KeyError ''PORT'' (CannotParseInt ''http'')))
      \<and> Unmarshal L (Inr [(''HOST'', ''example'')])
           (PointerTo portHostType (VStruct [VInt 0, VString []]))
       = (PointerTo portHostType (VStruct [VInt 0, VString ''example'']), Success)"
proof
  fix L
  have a: "rangeLoop L portHostType (VStruct [VInt 0, VString []]) [] = (VStruct [VInt 0, VString []], Success)"
    by simp
  have b: "assignValue L portHostType (VStruct [VInt 0, VString []]) (Split ''PORT'') ''http''
            = (VStruct [VInt 0, VString []], Error (CannotParseInt ''http''))"
    by (simp add: portHostType_def decoder_eval)
  have k: "Kind portHostType = KStruct"
    by (simp add: portHostType_def)
  have c: "Unmarshal L (Inr [(''HOST'', ''example'')])
           (PointerTo portHostType (VStruct [VInt 0, VString []]))
       = (PointerTo portHostType (VStruct [VInt 0, VString ''example'']), Success)"
    by (simp add: portHostType_def decoder_eval)
  have "Unmarshal L (Inr ([] @ (''PORT'', ''http'') # [(''HOST'', ''example'')]))
           (PointerTo portHostType (VStruct [VInt 0, VString []]))
       = (PointerTo portHostType (VStruct [VInt 0, VString []]),
          Error (KeyError ''PORT'' (CannotParseInt ''http'')))"
    using first_key_error_aborts_decode
            [of L portHostType "VStruct [VInt 0, VString []]" "[]" "VStruct [VInt 0, VString []]"
                "''PORT''" "''http''" "VStruct [VInt 0, VString []]" "CannotParseInt ''http''"
                "[(''HOST'', ''example'')]"] a b k
    by blast
  with c show "Unmarshal L (Inr [(''PORT'', ''http''), (''HOST'', ''example'')])
           (PointerTo portHostType (VStruct [VInt 0, VString []]))
       = (PointerTo portHostType (VStruct [VInt 0, VString []]),
          Error (KeyError ''PORT'' (CannotParseInt ''http'')))
      \<and> Unmarshal L (Inr [(''HOST'', ''example'')])
           (PointerTo portHostType (VStruct [VInt 0, VString []]))
       = (PointerTo portHostType (VStruct [VInt 0, VString ''example'']), Success)"
    by simp
qed

subsection \<open>C6: growing a sequence\<close>

text \<open>The elements of a slice value; a nil slice has none.\<close>

definition sliceElems :: "goval \<Rightarrow> goval list" where
  "sliceElems v = (case v of VSlice (Some xs) \<Rightarrow> xs | _ \<Rightarrow> [])"

text \<open>The slice after growth: its element at the index, and the write at the index.\<close>

lemma grown_nth:
  "length xs \<le> n \<Longrightarrow> (xs @ replicate (Suc n - length xs) z) ! n = z"
  by (simp add: nth_append)

lemma replicate_Suc_update: "(replicate (Suc k) z)[k := e] = replicate k z @ [e]"
  by (induction k) simp_all

lemma grown_update:
  assumes "length xs \<le> n"
  shows "(xs @ replicate (Suc n - length xs) z)[n := e] = xs @ replicate (n - length xs) z @ [e]"
proof -
  define k where "k = n - length xs"
  have n: "n = length xs + k" and 1: "Suc n - length xs = Suc k"
    using assms by (simp_all add: k_def)
  have "(xs @ replicate (Suc k) z)[length xs + k := e] = xs @ (replicate (Suc k) z)[k := e]"
    by (simp add: list_update_append del: replicate.simps)
  then show ?thesis
    unfolding 1 k_def [symmetric] n [symmetric] by (simp only: replicate_Suc_update)
qed

text \<open>
  C6. A sequence field of current length \<open>L\<close> (0 for a nil sequence) indexed by a segment
  that parses to \<open>ix \<ge> L\<close>, with \<open>ix + 1\<close> still an \<^verbatim>\<open>int\<close>: the field becomes a sequence of
  exactly \<open>ix + 1\<close> elements, the old elements first and at their positions, zero values
  from \<open>L\<close> up to \<open>ix\<close>, and at \<open>ix\<close> the zero value as the assignment leaves it. With no
  further segment that assignment is the coercion of the raw value into a zero element.
\<close>

theorem slice_grows_to_index:
  assumes "Atoi idx = Some ix" and "int (length (sliceElems fieldVal)) \<le> ix" and "ix + 1 < 2 ^ 63"
  shows "\<exists>e out.
           assignField L (name, TSlice n et) fieldVal (idx # rest) rawVal
             = (VSlice (Some (sliceElems fieldVal
                              @ replicate (nat ix - length (sliceElems fieldVal)) (zero et) @ [e])),
                out)
           \<and> length (sliceElems fieldVal
                     @ replicate (nat ix - length (sliceElems fieldVal)) (zero et) @ [e])
               = nat ix + 1
           \<and> (rest = [] \<longrightarrow> (e, out) = setBasicValue L et (zero et) rawVal)"
proof -
  define xs where "xs = sliceElems fieldVal"
  have xs: "(case fieldVal of VSlice (Some xs) \<Rightarrow> xs | _ \<Rightarrow> []) = xs"
    by (simp add: xs_def sliceElems_def)
  from assms(2) have le: "length xs \<le> nat ix" and nn: "\<not> ix < 0"
    and le': "int (length xs) \<le> ix"
    by (simp_all add: xs_def)
  have suc: "nat (ix + 1) = Suc (nat ix)"
    using nn by simp
  define ys where "ys = xs @ replicate (nat (ix + 1) - length xs) (zero et)"
  have at: "ys ! nat ix = zero et"
    unfolding ys_def suc using le by (rule grown_nth)
  have upd: "ys[nat ix := e] = xs @ replicate (nat ix - length xs) (zero et) @ [e]" for e
    unfolding ys_def suc using le by (rule grown_update)
  have len: "length (xs @ replicate (nat ix - length xs) (zero et) @ [e]) = nat ix + 1" for e
    using le by simp
  have step: "assignField L (name, TSlice n et) fieldVal (idx # rest) rawVal =
      (if 1 < length (idx # rest) then
         (case et of
            TPtr pn pt \<Rightarrow>
              (case assignValue L pt (case ys ! nat ix of VPtr (Some e) \<Rightarrow> e | _ \<Rightarrow> zero pt)
                      (tl (idx # rest)) rawVal of
                 (e', out) \<Rightarrow> (VSlice (Some (ys[nat ix := VPtr (Some e')])), out))
          | TStruct sn sfs \<Rightarrow>
              (case assignValue L et (ys ! nat ix) (tl (idx # rest)) rawVal of
                 (e', out) \<Rightarrow> (VSlice (Some (ys[nat ix := e'])), out))
          | _ \<Rightarrow> (VSlice (Some ys), Error (CannotDescendSliceElem (Kind et) (fst (name, TSlice n et)))))
       else (case setBasicValue L et (ys ! nat ix) rawVal of
               (e', out) \<Rightarrow> (VSlice (Some (ys[nat ix := e'])), out)))"
    unfolding ys_def using assms(1,3) nn le'
    by (simp add: assignField.simps xs Let_def del: setBasicValue.simps)
  have same: "ys = ys[nat ix := zero et]"
    using at by (metis list_update_id)
  have "\<exists>e out. assignField L (name, TSlice n et) fieldVal (idx # rest) rawVal
                  = (VSlice (Some (ys[nat ix := e])), out)
               \<and> (rest = [] \<longrightarrow> (e, out) = setBasicValue L et (zero et) rawVal)"
  proof (cases rest)
    case Nil
    obtain e out where s: "setBasicValue L et (zero et) rawVal = (e, out)"
      by (cases "setBasicValue L et (zero et) rawVal")
    then show ?thesis
      using step Nil at by (simp del: setBasicValue.simps)
  next
    case (Cons r rs)
    show ?thesis
    proof (cases et)
      case (TPtr pn pt)
      obtain e out where
        "assignValue L pt (case ys ! nat ix of VPtr (Some e) \<Rightarrow> e | _ \<Rightarrow> zero pt) (r # rs) rawVal = (e, out)"
        by (cases "assignValue L pt (case ys ! nat ix of VPtr (Some e) \<Rightarrow> e | _ \<Rightarrow> zero pt) (r # rs) rawVal")
      then show ?thesis using step Cons TPtr by auto
    next
      case (TStruct sn sfs)
      obtain e out where "assignValue L et (ys ! nat ix) (r # rs) rawVal = (e, out)"
        by (cases "assignValue L et (ys ! nat ix) (r # rs) rawVal")
      then show ?thesis using step Cons TStruct by auto
    next
      case (TBasic bn k)
      then show ?thesis using step Cons same by auto
    next
      case TDuration
      then show ?thesis using step Cons same by auto
    next
      case (TMap mn kt vt)
      then show ?thesis using step Cons same by auto
    next
      case (TSlice sn st)
      then show ?thesis using step Cons same by auto
    next
      case (TInterface inn m)
      then show ?thesis using step Cons same by auto
    qed
  qed
  then show ?thesis
    unfolding upd xs_def [symmetric] using len by blast
qed

text \<open>
  \<open>ITEMS_2=x\<close> into a nil \<^verbatim>\<open>[]string\<close>: three elements, two empty strings and \<open>x\<close>.
\<close>

theorem slice_grows_to_index_witness:
  "\<forall>L. assignField L (''Items'', TSlice [] (TBasic ''string'' KString)) (VSlice None) [''2''] ''x''
         = (VSlice (Some [VString [], VString [], VString ''x'']), Success)
      \<and> Unmarshal L (Inr [(''ITEMS_2'', ''x'')]) (PointerTo itemsType (zero itemsType))
         = (PointerTo itemsType (VStruct [VSlice (Some [VString [], VString [], VString ''x''])]),
            Success)"
proof
  fix L
  have a: "Atoi ''2'' = Some 2"
    by (simp add: decoder_eval)
  have b: "int (length (sliceElems (VSlice None))) \<le> 2"
    by (simp add: sliceElems_def)
  have c: "(2::int) + 1 < 2 ^ 63"
    by simp
  have s: "setBasicValue L (TBasic ''string'' KString) (zero (TBasic ''string'' KString)) ''x''
            = (VString ''x'', Success)"
    by (simp add: setWithReflect_def)
  have f: "assignField L (''Items'', TSlice [] (TBasic ''string'' KString)) (VSlice None) [''2''] ''x''
         = (VSlice (Some [VString [], VString [], VString ''x'']), Success)"
    using slice_grows_to_index [OF a b c, of L "''Items''" "[]" "TBasic ''string'' KString" "[]" "''x''"]
    unfolding s by (auto simp: sliceElems_def numeral_2_eq_2)
  have u: "Unmarshal L (Inr [(''ITEMS_2'', ''x'')]) (PointerTo itemsType (zero itemsType))
         = (PointerTo itemsType (VStruct [VSlice (Some [VString [], VString [], VString ''x''])]),
            Success)"
    by (simp add: itemsType_def decoder_eval)
  from f u show "assignField L (''Items'', TSlice [] (TBasic ''string'' KString)) (VSlice None) [''2''] ''x''
         = (VSlice (Some [VString [], VString [], VString ''x'']), Success)
      \<and> Unmarshal L (Inr [(''ITEMS_2'', ''x'')]) (PointerTo itemsType (zero itemsType))
         = (PointerTo itemsType (VStruct [VSlice (Some [VString [], VString [], VString ''x''])]),
            Success)"
    by simp
qed

subsection \<open>C7: the key of a map entry\<close>

text \<open>The entries of a map value; a nil map has none.\<close>

definition mapEntries :: "goval \<Rightarrow> string \<Rightarrow> goval option" where
  "mapEntries v = (case v of VMap (Some m) \<Rightarrow> m | _ \<Rightarrow> Map.empty)"

text \<open>Joining splits a key back together, and a joined list splits at any inner position.\<close>

lemma Join_Split: "Join (Split s) = s"
proof (induction s)
  case Nil
  then show ?case by simp
next
  case (Cons c cs)
  show ?case
  proof (cases "Split cs")
    case Nil
    then show ?thesis using Split_not_Nil by blast
  next
    case (Cons w ws)
    with Cons.IH show ?thesis
      by (cases ws) auto
  qed
qed

lemma Join_append:
  "xs \<noteq> [] \<Longrightarrow> ys \<noteq> [] \<Longrightarrow> Join (xs @ ys) = Join xs @ CHR ''_'' # Join ys"
proof (induction xs rule: Join.induct)
  case 1
  then show ?case by simp
next
  case (2 p)
  then show ?case by (cases ys) simp_all
next
  case (3 p q ps)
  then show ?case by simp
qed

lemma Join_take_drop:
  assumes "0 < p" and "p < length parts"
  shows "Join parts = Join (take p parts) @ CHR ''_'' # Join (drop p parts)"
proof -
  have "take p parts \<noteq> []" and "drop p parts \<noteq> []"
    using assms by auto
  then have "Join (take p parts @ drop p parts)
               = Join (take p parts) @ CHR ''_'' # Join (drop p parts)"
    by (rule Join_append)
  then show ?thesis by simp
qed

lemma mapEntries_SetMapIndex:
  "mapEntries (SetMapIndex (case fieldVal of VMap (Some m) \<Rightarrow> fieldVal | _ \<Rightarrow> VMap (Some Map.empty)) k cv)
     = (mapEntries fieldVal)(k \<mapsto> cv)"
  by (auto simp: mapEntries_def SetMapIndex_def split: goval.splits option.splits)

text \<open>
  C7. A key whose matched prefix lands on a map field with a key type of kind string, with
  segments left over, and whose raw value coerces to \<open>cv\<close>: the raw key is the matched
  prefix, a \<open>_\<close>, and the map key, so the map key is the raw key without the consumed
  prefix, its case and its underscores as they were. For the key type \<^verbatim>\<open>string\<close> the call
  succeeds, and the field's map is the old map with that key bound to \<open>cv\<close>. For any other
  key type of kind string (\<^verbatim>\<open>type K string\<close>) the call stops in the panic of
  \<^verbatim>\<open>SetMapIndex\<close>, which is handed the key as a \<^verbatim>\<open>string\<close> and not converted to the
  key type; the map, made if it was nil, has no new entry.
\<close>

theorem map_key_by_key_type:
  assumes "prefixLoop fs (Split rawKey) (length (Split rawKey)) = Some (p, i)"
    and "p < length (Split rawKey)"
    and "fs ! i = (name, TMap n kt vt)"
    and "Kind kt = KString"
    and "(if isEmptyInterface vt then (VString rawVal, Success)
          else setBasicValue L vt (zero vt) rawVal) = (cv, Success)"
  shows "\<exists>mapKey m.
           rawKey = Join (take p (Split rawKey)) @ CHR ''_'' # mapKey
           \<and> mapKey = Join (drop p (Split rawKey))
           \<and> (if kt = TBasic ''string'' KString
              then assignValue L (TStruct sn fs) (VStruct vs) (Split rawKey) rawVal
                     = (VStruct (vs[i := m]), Success)
                   \<and> mapEntries m = (mapEntries (vs ! i))(mapKey \<mapsto> cv)
              else assignValue L (TStruct sn fs) (VStruct vs) (Split rawKey) rawVal
                     = (VStruct (vs[i := m]), Panic (SetMapIndexNotAssignable (Name kt)))
                   \<and> mapEntries m = mapEntries (vs ! i))"
proof -
  define parts where "parts = Split rawKey"
  define leftover where "leftover = drop p parts"
  define init where
    "init = (case vs ! i of VMap (Some m) \<Rightarrow> vs ! i | _ \<Rightarrow> VMap (Some Map.empty))"
  have p0: "0 < p"
    using assms(1) prefixLoop_bounds by blast
  have ne: "parts \<noteq> []" and lne: "leftover \<noteq> []"
    using assms(2) by (auto simp: parts_def leftover_def)
  have key: "rawKey = Join (take p parts) @ CHR ''_'' # Join leftover"
    using Join_take_drop [OF p0, of parts] assms(2) Join_Split [of rawKey]
    by (simp add: parts_def leftover_def)
  show ?thesis
  proof (cases "kt = TBasic ''string'' KString")
    case True
    define m where "m = SetMapIndex init (Join leftover) cv"
    have f: "assignField L (fs ! i) (vs ! i) leftover rawVal = (m, Success)"
      using lne assms(5) True
      by (simp add: assms(3) assignField.simps setMapValue_def m_def init_def
            del: setBasicValue.simps)
    have a: "assignValue L (TStruct sn fs) (VStruct vs) parts rawVal
               = (VStruct (vs[i := m]), Success)"
      using ne assms(1) f
      by (simp add: assignValue.simps parts_def [symmetric] leftover_def [symmetric]
            getFieldValue_def setField_def)
    have e: "mapEntries m = (mapEntries (vs ! i))(Join leftover \<mapsto> cv)"
      unfolding m_def init_def by (rule mapEntries_SetMapIndex)
    show ?thesis
      using key a e True unfolding parts_def leftover_def by auto
  next
    case False
    have f: "assignField L (fs ! i) (vs ! i) leftover rawVal
               = (init, Panic (SetMapIndexNotAssignable (Name kt)))"
      using lne assms(4) assms(5) False
      by (simp add: assms(3) assignField.simps setMapValue_def init_def
            del: setBasicValue.simps)
    have a: "assignValue L (TStruct sn fs) (VStruct vs) parts rawVal
               = (VStruct (vs[i := init]), Panic (SetMapIndexNotAssignable (Name kt)))"
      using ne assms(1) f
      by (simp add: assignValue.simps parts_def [symmetric] leftover_def [symmetric]
            getFieldValue_def setField_def)
    have e: "mapEntries init = mapEntries (vs ! i)"
      by (auto simp: mapEntries_def init_def split: goval.splits option.splits)
    show ?thesis
      using key a e False unfolding parts_def leftover_def by auto
  qed
qed

text \<open>
  \<open>TAGS_Foo_Bar=v\<close> against the field \<^verbatim>\<open>Tags map[string]string\<close>, nil before, and
  against the field \<^verbatim>\<open>Tags map[K]string\<close> with \<^verbatim>\<open>type K string\<close>.
\<close>

definition namedKeyFields :: "(string \<times> gotype) list" where
  "namedKeyFields = [(''Tags'', TMap [] (TBasic ''K'' KString) (TBasic ''string'' KString))]"

theorem map_key_by_key_type_witness:
  "\<forall>L. (\<exists>m. assignValue L (TStruct ''Config'' tagsFields) (VStruct [VMap None])
               (Split ''TAGS_Foo_Bar'') ''v'' = (VStruct ([VMap None][0 := m]), Success)
             \<and> mapEntries m = (mapEntries ([VMap None] ! 0))(''Foo_Bar'' \<mapsto> VString ''v''))
      \<and> Unmarshal L (Inr [(''TAGS_Foo_Bar'', ''v'')])
           (PointerTo (TStruct ''Config'' tagsFields) (VStruct [VMap None]))
         = (PointerTo (TStruct ''Config'' tagsFields)
              (VStruct [VMap (Some [''Foo_Bar'' \<mapsto> VString ''v''])]), Success)
      \<and> (\<exists>m. assignValue L (TStruct ''Config'' namedKeyFields) (VStruct [VMap None])
               (Split ''TAGS_Foo_Bar'') ''v''
                 = (VStruct ([VMap None][0 := m]), Panic (SetMapIndexNotAssignable ''K''))
             \<and> mapEntries m = mapEntries ([VMap None] ! 0))
      \<and> Unmarshal L (Inr [(''TAGS_Foo_Bar'', ''v'')])
           (PointerTo (TStruct ''Config'' namedKeyFields) (VStruct [VMap None]))
         = (PointerTo (TStruct ''Config'' namedKeyFields) (VStruct [VMap (Some Map.empty)]),
            Panic (SetMapIndexNotAssignable ''K''))"
proof
  fix L
  have s: "Split ''TAGS_Foo_Bar'' = [''TAGS'', ''Foo'', ''Bar'']"
    by simp
  have a: "prefixLoop tagsFields (Split ''TAGS_Foo_Bar'') (length (Split ''TAGS_Foo_Bar'')) = Some (1, 0)"
    unfolding s by (simp add: tagsFields_def normalize_def ToLower_def toLowerByte_def eval_nat_numeral)
  have a': "prefixLoop namedKeyFields (Split ''TAGS_Foo_Bar'') (length (Split ''TAGS_Foo_Bar'')) = Some (1, 0)"
    unfolding s by (simp add: namedKeyFields_def normalize_def ToLower_def toLowerByte_def eval_nat_numeral)
  have b: "1 < length (Split ''TAGS_Foo_Bar'')"
    unfolding s by simp
  have c: "tagsFields ! 0 = (''Tags'', TMap [] (TBasic ''string'' KString) (TBasic ''string'' KString))"
    by (simp add: tagsFields_def)
  have c': "namedKeyFields ! 0 = (''Tags'', TMap [] (TBasic ''K'' KString) (TBasic ''string'' KString))"
    by (simp add: namedKeyFields_def)
  have k: "Kind (TBasic ''string'' KString) = KString" "Kind (TBasic ''K'' KString) = KString"
    by simp_all
  have d: "(if isEmptyInterface (TBasic ''string'' KString) then (VString ''v'', Success)
            else setBasicValue L (TBasic ''string'' KString) (zero (TBasic ''string'' KString)) ''v'')
           = (VString ''v'', Success)"
    by (simp add: isEmptyInterface_def setWithReflect_def)
  have j: "Join (drop 1 (Split ''TAGS_Foo_Bar'')) = ''Foo_Bar''"
    unfolding s by simp
  have u: "Unmarshal L (Inr [(''TAGS_Foo_Bar'', ''v'')])
           (PointerTo (TStruct ''Config'' tagsFields) (VStruct [VMap None]))
         = (PointerTo (TStruct ''Config'' tagsFields)
              (VStruct [VMap (Some [''Foo_Bar'' \<mapsto> VString ''v''])]), Success)"
    by (simp add: tagsFields_def decoder_eval)
  have u': "Unmarshal L (Inr [(''TAGS_Foo_Bar'', ''v'')])
           (PointerTo (TStruct ''Config'' namedKeyFields) (VStruct [VMap None]))
         = (PointerTo (TStruct ''Config'' namedKeyFields) (VStruct [VMap (Some Map.empty)]),
            Panic (SetMapIndexNotAssignable ''K''))"
    by (simp add: namedKeyFields_def decoder_eval)
  have g: "\<exists>m. assignValue L (TStruct ''Config'' tagsFields) (VStruct [VMap None])
               (Split ''TAGS_Foo_Bar'') ''v'' = (VStruct ([VMap None][0 := m]), Success)
             \<and> mapEntries m = (mapEntries ([VMap None] ! 0))(''Foo_Bar'' \<mapsto> VString ''v'')"
    using map_key_by_key_type [OF a b c k(1) d, of "''Config''" "[VMap None]"]
    unfolding j by auto
  have h: "\<exists>m. assignValue L (TStruct ''Config'' namedKeyFields) (VStruct [VMap None])
               (Split ''TAGS_Foo_Bar'') ''v''
                 = (VStruct ([VMap None][0 := m]), Panic (SetMapIndexNotAssignable ''K''))
             \<and> mapEntries m = mapEntries ([VMap None] ! 0)"
    using map_key_by_key_type [OF a' b c' k(2) d, of "''Config''" "[VMap None]"]
    by auto
  show "(\<exists>m. assignValue L (TStruct ''Config'' tagsFields) (VStruct [VMap None])
               (Split ''TAGS_Foo_Bar'') ''v'' = (VStruct ([VMap None][0 := m]), Success)
             \<and> mapEntries m = (mapEntries ([VMap None] ! 0))(''Foo_Bar'' \<mapsto> VString ''v''))
      \<and> Unmarshal L (Inr [(''TAGS_Foo_Bar'', ''v'')])
           (PointerTo (TStruct ''Config'' tagsFields) (VStruct [VMap None]))
         = (PointerTo (TStruct ''Config'' tagsFields)
              (VStruct [VMap (Some [''Foo_Bar'' \<mapsto> VString ''v''])]), Success)
      \<and> (\<exists>m. assignValue L (TStruct ''Config'' namedKeyFields) (VStruct [VMap None])
               (Split ''TAGS_Foo_Bar'') ''v''
                 = (VStruct ([VMap None][0 := m]), Panic (SetMapIndexNotAssignable ''K''))
             \<and> mapEntries m = mapEntries ([VMap None] ! 0))
      \<and> Unmarshal L (Inr [(''TAGS_Foo_Bar'', ''v'')])
           (PointerTo (TStruct ''Config'' namedKeyFields) (VStruct [VMap None]))
         = (PointerTo (TStruct ''Config'' namedKeyFields) (VStruct [VMap (Some Map.empty)]),
            Panic (SetMapIndexNotAssignable ''K''))"
    using g u h u' by blast
qed

subsection \<open>C3: keys that match nothing\<close>

text \<open>
  A key that matches no field path at any level: at the record no prefix matches; or the
  longest matching prefix lands on a nested record, a pointer to a record, or an element
  (a record or a pointer to one) of a slice at an index that is a valid \<^verbatim>\<open>int\<close> length,
  with segments left over that match nothing inside, in the same sense.
\<close>

function unmatched :: "gotype \<Rightarrow> string list \<Rightarrow> bool"
  and unmatchedIn :: "gotype \<Rightarrow> string list \<Rightarrow> bool"
where
  "unmatched typ parts =
     (case typ of
        TStruct n fs \<Rightarrow>
          (case prefixLoop fs parts (length parts) of
             None \<Rightarrow> True
           | Some (prefixLen, i) \<Rightarrow> unmatchedIn (snd (fs ! i)) (drop prefixLen parts))
      | _ \<Rightarrow> False)"
| "unmatchedIn ft leftover =
     (leftover \<noteq> [] \<and>
      (case ft of
         TStruct n fs \<Rightarrow> unmatched ft leftover
       | TPtr n et \<Rightarrow> unmatched et leftover
       | TSlice n et \<Rightarrow>
           (case Atoi (hd leftover) of
              None \<Rightarrow> False
            | Some ix \<Rightarrow>
                0 \<le> ix \<and> ix + 1 < 2 ^ 63 \<and> tl leftover \<noteq> [] \<and>
                (case et of
                   TStruct sn sfs \<Rightarrow> unmatched et (tl leftover)
                 | TPtr pn pt \<Rightarrow> unmatched pt (tl leftover)
                 | _ \<Rightarrow> False))
       | _ \<Rightarrow> False))"
  by pat_completeness auto
termination
  apply (relation "measure (\<lambda>x. case x of
            Inl (typ, parts) \<Rightarrow> 2 * length parts
          | Inr (ft, leftover) \<Rightarrow> 2 * length leftover + 1)")
      apply (auto dest!: prefixLoop_bounds)
  done

declare unmatched.simps [simp del] unmatchedIn.simps [simp del]

text \<open>
  The descent of such a key allocates nothing: every pointer on the way is set, and every
  slice on the way holds the indexed element (and, for an element that is a pointer, a
  set one).
\<close>

function settled :: "gotype \<Rightarrow> goval \<Rightarrow> string list \<Rightarrow> bool"
  and settledIn :: "gotype \<Rightarrow> goval \<Rightarrow> string list \<Rightarrow> bool"
where
  "settled typ v parts =
     (case typ of
        TStruct n fs \<Rightarrow>
          (case prefixLoop fs parts (length parts) of
             None \<Rightarrow> True
           | Some (prefixLen, i) \<Rightarrow>
               settledIn (snd (fs ! i)) (getFieldValue v i) (drop prefixLen parts))
      | _ \<Rightarrow> True)"
| "settledIn ft fieldVal leftover =
     (leftover = [] \<or>
      (case ft of
         TStruct n fs \<Rightarrow> settled ft fieldVal leftover
       | TPtr n et \<Rightarrow>
           (case fieldVal of VPtr (Some e) \<Rightarrow> settled et e leftover | _ \<Rightarrow> False)
       | TSlice n et \<Rightarrow>
           (case (Atoi (hd leftover), fieldVal) of
              (Some ix, VSlice (Some xs)) \<Rightarrow>
                0 \<le> ix \<and> nat ix < length xs \<and>
                (case et of
                   TStruct sn sfs \<Rightarrow> settled et (xs ! nat ix) (tl leftover)
                 | TPtr pn pt \<Rightarrow>
                     (case xs ! nat ix of
                        VPtr (Some e) \<Rightarrow> settled pt e (tl leftover)
                      | _ \<Rightarrow> False)
                 | _ \<Rightarrow> True)
            | _ \<Rightarrow> False)
       | _ \<Rightarrow> True))"
  by pat_completeness auto
termination
  apply (relation "measure (\<lambda>x. case x of
            Inl (typ, v, parts) \<Rightarrow> 2 * length parts
          | Inr (ft, fieldVal, leftover) \<Rightarrow> 2 * length leftover + 1)")
      apply (auto dest!: prefixLoop_bounds)
  done

declare settled.simps [simp del] settledIn.simps [simp del]


text \<open>Only a record can be unmatched; the descent into a slice element, as the source runs it.\<close>

lemma unmatched_struct: "unmatched t parts \<Longrightarrow> \<exists>n fs. t = TStruct n fs"
  by (cases "t") (simp_all add: unmatched.simps)

lemma list_update_same: "xs ! i = x \<Longrightarrow> xs[i := x] = xs"
  by auto

lemma assignField_slice_descend:
  assumes "snd field = TSlice n et" and "Atoi (hd leftover) = Some ix" and "\<not> ix < 0"
    and "ix + 1 < 2 ^ 63" and "1 < length leftover"
    and "xs = (case fieldVal of VSlice (Some xs) \<Rightarrow> xs | _ \<Rightarrow> [])"
    and "ys = (if ix \<ge> int (length xs)
               then xs @ replicate (nat (ix + 1) - length xs) (zero et) else xs)"
  shows "assignField L field fieldVal leftover rawVal =
     (case et of
        TPtr pn pt \<Rightarrow>
          (case assignValue L pt (case ys ! nat ix of VPtr (Some e) \<Rightarrow> e | _ \<Rightarrow> zero pt)
                  (tl leftover) rawVal of
             (e', out) \<Rightarrow> (VSlice (Some (ys[nat ix := VPtr (Some e')])), out))
      | TStruct sn sfs \<Rightarrow>
          (case assignValue L et (ys ! nat ix) (tl leftover) rawVal of
             (e', out) \<Rightarrow> (VSlice (Some (ys[nat ix := e'])), out))
      | _ \<Rightarrow> (VSlice (Some ys), Error (CannotDescendSliceElem (Kind et) (fst field))))"
proof -
  have ne: "leftover \<noteq> []"
    using assms(5) by auto
  have nopanic: "\<not> (ix \<ge> int (length xs) \<and> ix + 1 \<ge> 2 ^ 63)"
    using assms(4) by simp
  show ?thesis
    apply (subst assignField.simps)
    apply (simp only: ne assms(1) assms(2) if_False gotype.case option.case Let_def
             assms(6) [symmetric] nopanic assms(7) [symmetric] assms(3) assms(5) if_True)
    done
qed

text \<open>The two facts, for the function and for the body of its loops, by the function's own induction.\<close>

lemma unmatched_assign:
  "unmatched t parts \<Longrightarrow>
     snd (assignValue L t v parts rawVal) = Success \<and>
     (settled t v parts \<longrightarrow> fst (assignValue L t v parts rawVal) = v)"
  "unmatchedIn (snd field) leftover \<Longrightarrow>
     snd (assignField L field fieldVal leftover rawVal) = Success \<and>
     (settledIn (snd field) fieldVal leftover \<longrightarrow>
        fst (assignField L field fieldVal leftover rawVal) = fieldVal)"
proof (induction L t v parts rawVal and L field fieldVal leftover rawVal
        rule: assignValue_assignField.induct)
  case (1 L t v parts rawVal)
  from "1.prems" obtain n fs where ty: "t = TStruct n fs"
    using unmatched_struct by blast
  show ?case
  proof (cases "parts = []")
    case True
    then show ?thesis by (simp add: assignValue.simps)
  next
    case False
    show ?thesis
    proof (cases "prefixLoop fs parts (length parts)")
      case None
      with False ty show ?thesis by (simp add: assignValue.simps)
    next
      case (Some pi)
      obtain p i where pi: "pi = (p, i)" by (cases pi)
      have u: "unmatchedIn (snd (fs ! i)) (drop p parts)"
        using "1.prems" ty Some pi by (simp add: unmatched.simps)
      note ih = "1.IH" [OF False ty Some pi [symmetric] u]
      obtain fv out where f: "assignField L (fs ! i) (getFieldValue v i) (drop p parts) rawVal = (fv, out)"
        by (cases "assignField L (fs ! i) (getFieldValue v i) (drop p parts) rawVal")
      have a: "assignValue L t v parts rawVal = (setField v i fv, out)"
        using False ty Some pi f by (simp add: assignValue.simps)
      have s: "settled t v parts = settledIn (snd (fs ! i)) (getFieldValue v i) (drop p parts)"
        using ty Some pi by (simp add: settled.simps)
      show ?thesis
        using ih f unfolding a s by (auto simp: setField_getFieldValue)
    qed
  qed
next
  case (2 L field fieldVal leftover rawVal)
  from "2.prems" have ne: "leftover \<noteq> []"
    by (simp add: unmatchedIn.simps)
  show ?case
  proof (cases "snd field")
    case (TStruct n fs)
    have u: "unmatched (snd field) leftover"
      using "2.prems" TStruct by (simp add: unmatchedIn.simps)
    have a: "assignField L field fieldVal leftover rawVal = assignValue L (snd field) fieldVal leftover rawVal"
      using ne TStruct by (simp add: assignField.simps)
    have s: "settledIn (snd field) fieldVal leftover = settled (snd field) fieldVal leftover"
      using ne TStruct by (simp add: settledIn.simps)
    show ?thesis
      unfolding a s using "2.IH"(2) [OF ne TStruct u] .
  next
    case (TPtr n et)
    have u: "unmatched et leftover"
      using "2.prems" TPtr by (simp add: unmatchedIn.simps)
    then have k: "Kind et = KStruct"
      using unmatched_struct by fastforce
    define elem where "elem = (case fieldVal of VPtr (Some e) \<Rightarrow> e | _ \<Rightarrow> zero et)"
    note ih = "2.IH"(1) [OF ne TPtr elem_def k u]
    obtain e' out where r: "assignValue L et elem leftover rawVal = (e', out)"
      by (cases "assignValue L et elem leftover rawVal")
    have a: "assignField L field fieldVal leftover rawVal = (VPtr (Some e'), out)"
      using ne TPtr k r by (simp add: assignField.simps elem_def)
    have s: "settledIn (snd field) fieldVal leftover \<Longrightarrow> fieldVal = VPtr (Some elem) \<and> settled et elem leftover"
      using ne TPtr by (auto simp: settledIn.simps elem_def split: goval.splits option.splits)
    show ?thesis
      unfolding a using ih r s by auto
  next
    case (TSlice n et)
    from "2.prems" TSlice ne obtain ix where
      ix: "Atoi (hd leftover) = Some ix" and nn: "\<not> ix < 0" and small: "ix + 1 < 2 ^ 63"
      and more: "1 < length leftover"
      and u: "case et of TStruct sn sfs \<Rightarrow> unmatched et (tl leftover)
                       | TPtr pn pt \<Rightarrow> unmatched pt (tl leftover) | _ \<Rightarrow> False"
      by (cases leftover; cases "tl leftover")
         (auto simp: unmatchedIn.simps split: option.splits)
    define xs where "xs = (case fieldVal of VSlice (Some xs) \<Rightarrow> xs | _ \<Rightarrow> [])"
    define ys where "ys = (if ix \<ge> int (length xs)
                           then xs @ replicate (nat (ix + 1) - length xs) (zero et) else xs)"
    have nopanic: "\<not> (ix \<ge> int (length xs) \<and> ix + 1 \<ge> 2 ^ 63)"
      using small by simp
    have st: "settledIn (snd field) fieldVal leftover \<Longrightarrow>
                fieldVal = VSlice (Some xs) \<and> nat ix < length xs \<and> ys = xs"
      using ne TSlice ix nn
      by (auto simp: settledIn.simps xs_def ys_def split: goval.splits option.splits)
    show ?thesis
    proof (cases et)
      case (TStruct sn sfs)
      have u': "unmatched et (tl leftover)"
        using u TStruct by simp
      note ih = "2.IH"(4) [OF ne TSlice ix xs_def nopanic ys_def nn more TStruct u']
      obtain e' out where r: "assignValue L et (ys ! nat ix) (tl leftover) rawVal = (e', out)"
        by (cases "assignValue L et (ys ! nat ix) (tl leftover) rawVal")
      have a: "assignField L field fieldVal leftover rawVal = (VSlice (Some (ys[nat ix := e'])), out)"
        unfolding assignField_slice_descend [OF TSlice ix nn small more xs_def ys_def]
        using TStruct r by simp
      have s: "settledIn (snd field) fieldVal leftover \<Longrightarrow> settled et (ys ! nat ix) (tl leftover)"
        using st ne \<open>snd field = TSlice n et\<close> ix TStruct
        by (auto simp: settledIn.simps split: goval.splits option.splits)
      show ?thesis
        unfolding a using ih r s st by (auto simp: list_update_id)
    next
      case (TPtr pn pt)
      have u': "unmatched pt (tl leftover)"
        using u TPtr by simp
      define e where "e = (case ys ! nat ix of VPtr (Some e) \<Rightarrow> e | _ \<Rightarrow> zero pt)"
      note ih = "2.IH"(3) [OF ne TSlice ix xs_def nopanic ys_def nn more TPtr u']
      obtain e' out where r: "assignValue L pt e (tl leftover) rawVal = (e', out)"
        by (cases "assignValue L pt e (tl leftover) rawVal")
      have a: "assignField L field fieldVal leftover rawVal
                 = (VSlice (Some (ys[nat ix := VPtr (Some e')])), out)"
        unfolding assignField_slice_descend [OF TSlice ix nn small more xs_def ys_def]
        using TPtr r unfolding e_def by simp
      have s: "settledIn (snd field) fieldVal leftover \<Longrightarrow>
                 ys ! nat ix = VPtr (Some e) \<and> settled pt e (tl leftover)"
        using st ne \<open>snd field = TSlice n et\<close> ix TPtr
        by (auto simp: settledIn.simps e_def split: goval.splits option.splits)
      show ?thesis
        unfolding a using ih r s st unfolding e_def [symmetric]
        by (auto simp: list_update_same)
    next
      case (TBasic bn k)
      then show ?thesis using u by simp
    next
      case TDuration
      then show ?thesis using u by simp
    next
      case (TMap mn kt vt)
      then show ?thesis using u by simp
    next
      case (TSlice sn st)
      then show ?thesis using u by simp
    next
      case (TInterface inn m)
      then show ?thesis using u by simp
    qed
  next
    case (TBasic n k)
    then show ?thesis using "2.prems" by (simp add: unmatchedIn.simps)
  next
    case TDuration
    then show ?thesis using "2.prems" by (simp add: unmatchedIn.simps)
  next
    case (TMap n kt vt)
    then show ?thesis using "2.prems" by (simp add: unmatchedIn.simps)
  next
    case (TInterface n m)
    then show ?thesis using "2.prems" by (simp add: unmatchedIn.simps)
  qed
qed


text \<open>
  A record whose field \<open>P\<close> is a pointer to a record and whose field \<open>Items\<close> is a slice of
  records. The keys \<open>P_ZZZ\<close> and \<open>ITEMS_1_ZZZ\<close> match a composite field, and their leftover
  matches nothing inside it. Both calls succeed, and both change the destination: the nil
  pointer is allocated, the nil slice is grown to two elements.
\<close>

definition nestedType :: gotype where
  "nestedType = TStruct ''Config''
     [(''P'', TPtr [] (TStruct ''Inner'' [(''A'', TBasic ''int'' KInt)])),
      (''Items'', TSlice [] (TStruct ''Item'' [(''B'', TBasic ''string'' KString)])),
      (''DB'', TStruct ''Database'' [(''Host'', TBasic ''string'' KString)])]"

lemmas unmatched_eval =
  unmatched.simps unmatchedIn.simps settled.simps settledIn.simps normalize_def ToLower_def
  toLowerByte_def Atoi_def ParseInt_def isDigit_def digitVal_def decimal_def getFieldValue_def

theorem unmatched_leftover_allocates_counterexample:
  "unmatched nestedType (Split ''P_ZZZ'')
   \<and> (\<forall>L. assignValue L nestedType (VStruct [VPtr None, VSlice None, VStruct [VString []]])
              (Split ''P_ZZZ'') ''1''
            = (VStruct [VPtr (Some (VStruct [VInt 0])), VSlice None, VStruct [VString []]], Success))
   \<and> VStruct [VPtr (Some (VStruct [VInt 0])), VSlice None, VStruct [VString []]]
       \<noteq> VStruct [VPtr None, VSlice None, VStruct [VString []]]
   \<and> unmatched nestedType (Split ''ITEMS_1_ZZZ'')
   \<and> (\<forall>L. assignValue L nestedType (VStruct [VPtr None, VSlice None, VStruct [VString []]])
              (Split ''ITEMS_1_ZZZ'') ''1''
            = (VStruct [VPtr None, VSlice (Some [VStruct [VString []], VStruct [VString []]]),
                        VStruct [VString []]], Success))"
proof -
  have a: "unmatched nestedType (Split ''P_ZZZ'')"
    by (simp add: nestedType_def unmatched_eval)
  have b: "assignValue L nestedType (VStruct [VPtr None, VSlice None, VStruct [VString []]])
              (Split ''P_ZZZ'') ''1''
            = (VStruct [VPtr (Some (VStruct [VInt 0])), VSlice None, VStruct [VString []]], Success)" for L
    by (simp add: nestedType_def decoder_eval)
  have c: "unmatched nestedType (Split ''ITEMS_1_ZZZ'')"
    by (simp add: nestedType_def unmatched_eval)
  have d: "assignValue L nestedType (VStruct [VPtr None, VSlice None, VStruct [VString []]])
              (Split ''ITEMS_1_ZZZ'') ''1''
            = (VStruct [VPtr None, VSlice (Some [VStruct [VString []], VStruct [VString []]]),
                        VStruct [VString []]], Success)" for L
    by (simp add: nestedType_def decoder_eval)
  show ?thesis
    using a b c d by simp
qed

text \<open>
  C3, amended. A key that matches no field path at any level is processed with success,
  never an error. The destination is left as it was when no field of the record matches
  at any prefix length, and also when the descent went through embedded records, set
  pointers and existing slice elements only. (A nil pointer on the way is allocated, and
  a slice indexed past its end is grown, before the leftover is found to match nothing.)
\<close>

theorem unmatched_key_succeeds:
  assumes "unmatched t parts"
  shows "snd (assignValue L t v parts rawVal) = Success
       \<and> (settled t v parts \<longrightarrow> assignValue L t v parts rawVal = (v, Success))
       \<and> (\<forall>n fs. t = TStruct n fs \<and> prefixLoop fs parts (length parts) = None
             \<longrightarrow> assignValue L t v parts rawVal = (v, Success))"
proof -
  have s: "snd (assignValue L t v parts rawVal) = Success"
    and f: "settled t v parts \<longrightarrow> fst (assignValue L t v parts rawVal) = v"
    using unmatched_assign(1) [OF assms] by blast+
  have top: "assignValue L t v parts rawVal = (v, Success)"
    if "t = TStruct n fs" and "prefixLoop fs parts (length parts) = None" for n fs
    using that by (simp add: assignValue.simps)
  show ?thesis
    using s f top by (metis prod.collapse)
qed

text \<open>
  \<open>DB_ZZZ\<close> on the embedded record \<open>DB\<close>, and \<open>ZZZ\<close>, which matches no field: success, and
  the destination is the same.
\<close>

theorem unmatched_key_succeeds_witness:
  "\<forall>L. assignValue L nestedType (VStruct [VPtr None, VSlice None, VStruct [VString ''h'']])
           (Split ''DB_ZZZ'') ''1''
         = (VStruct [VPtr None, VSlice None, VStruct [VString ''h'']], Success)
      \<and> assignValue L nestedType (VStruct [VPtr None, VSlice None, VStruct [VString ''h'']])
           (Split ''ZZZ'') ''1''
         = (VStruct [VPtr None, VSlice None, VStruct [VString ''h'']], Success)"
proof
  fix L
  have a: "unmatched nestedType (Split ''DB_ZZZ'')"
    by (simp add: nestedType_def unmatched_eval)
  have b: "settled nestedType (VStruct [VPtr None, VSlice None, VStruct [VString ''h'']]) (Split ''DB_ZZZ'')"
    by (simp add: nestedType_def unmatched_eval)
  have c: "unmatched nestedType (Split ''ZZZ'')"
    by (simp add: nestedType_def unmatched_eval)
  have d: "settled nestedType (VStruct [VPtr None, VSlice None, VStruct [VString ''h'']]) (Split ''ZZZ'')"
    by (simp add: nestedType_def unmatched_eval)
  show "assignValue L nestedType (VStruct [VPtr None, VSlice None, VStruct [VString ''h'']])
           (Split ''DB_ZZZ'') ''1''
         = (VStruct [VPtr None, VSlice None, VStruct [VString ''h'']], Success)
      \<and> assignValue L nestedType (VStruct [VPtr None, VSlice None, VStruct [VString ''h'']])
           (Split ''ZZZ'') ''1''
         = (VStruct [VPtr None, VSlice None, VStruct [VString ''h'']], Success)"
    using unmatched_key_succeeds [OF a, of L "VStruct [VPtr None, VSlice None, VStruct [VString ''h'']]" "''1''"]
          unmatched_key_succeeds [OF c, of L "VStruct [VPtr None, VSlice None, VStruct [VString ''h'']]" "''1''"]
          b d
    by blast
qed

subsection \<open>C5: the order of the keys\<close>

text \<open>
  Two keys that normalise to the same prefix reach the same field. The mapping
  \<open>{AB: x, A_B: y}\<close> has two keys; decoded in one order it leaves \<open>y\<close> in the field,
  in the other \<open>x\<close>, and both decodes succeed.
\<close>

definition abType :: gotype where
  "abType = TStruct ''Config'' [(''AB'', TBasic ''string'' KString)]"

theorem last_processed_key_wins_counterexample:
  "distinct (map fst [(''AB'', ''x''), (''A_B'', ''y'')])
   \<and> set [(''AB'', ''x''), (''A_B'', ''y'')] = set [(''A_B'', ''y''), (''AB'', ''x'')]
   \<and> (\<forall>L. Unmarshal L (Inr [(''AB'', ''x''), (''A_B'', ''y'')]) (PointerTo abType (zero abType))
            = (PointerTo abType (VStruct [VString ''y'']), Success)
          \<and> Unmarshal L (Inr [(''A_B'', ''y''), (''AB'', ''x'')]) (PointerTo abType (zero abType))
            = (PointerTo abType (VStruct [VString ''x'']), Success))
   \<and> VStruct [VString ''y''] \<noteq> VStruct [VString ''x'']"
proof -
  have a: "Unmarshal L (Inr [(''AB'', ''x''), (''A_B'', ''y'')]) (PointerTo abType (zero abType))
            = (PointerTo abType (VStruct [VString ''y'']), Success)" for L
    by (simp add: abType_def decoder_eval)
  have b: "Unmarshal L (Inr [(''A_B'', ''y''), (''AB'', ''x'')]) (PointerTo abType (zero abType))
            = (PointerTo abType (VStruct [VString ''x'']), Success)" for L
    by (simp add: abType_def decoder_eval)
  have c: "set [(''AB'', ''x''), (''A_B'', ''y'')] = set [(''A_B'', ''y''), (''AB'', ''x'')]"
    by auto
  show ?thesis
    using a b c by simp
qed

text \<open>Writes to different fields of a record do not see each other and commute.\<close>

lemma getFieldValue_setField_other:
  "i \<noteq> j \<Longrightarrow> getFieldValue (setField v i x) j = getFieldValue v j"
  by (cases v) (simp_all add: getFieldValue_def setField_def)

lemma setField_swap:
  "i \<noteq> j \<Longrightarrow> setField (setField v i x) j y = setField (setField v j y) i x"
  by (cases v) (simp_all add: setField_def list_update_swap)

lemma rangeLoop_Cons_Success:
  "rangeLoop L t v ((k, r) # rest) = (w, Success) \<longleftrightarrow>
     (\<exists>v1. assignValue L t v (Split k) r = (v1, Success) \<and> rangeLoop L t v1 rest = (w, Success))"
proof -
  obtain v1 out where a: "assignValue L t v (Split k) r = (v1, out)"
    by (cases "assignValue L t v (Split k) r")
  show ?thesis
    using a by (cases out) (simp_all add: Split_not_Nil)
qed

text \<open>
  Two keys resolve to the same leaf when their segments lead through the same fields, the
  same slice elements and the same map key to one place where both of them end.
  \<open>differentLeaves\<close> holds in every other case: one of the keys is ignored at some level,
  or on their common way they part, to another field, another slice index or another map
  key, or one of them ends at a field or element that the other goes on into. The two
  functions follow \<^verbatim>\<open>assignValue\<close> and the body of its loops with both keys at once.
\<close>

function differentLeaves :: "gotype \<Rightarrow> string list \<Rightarrow> string list \<Rightarrow> bool"
  and differentLeavesIn :: "gotype \<Rightarrow> string list \<Rightarrow> string list \<Rightarrow> bool"
where
  "differentLeaves typ pa pb =
     (case typ of
        TStruct n fs \<Rightarrow>
          (case (prefixLoop fs pa (length pa), prefixLoop fs pb (length pb)) of
             (Some (p, i), Some (q, j)) \<Rightarrow>
               i \<noteq> j \<or> differentLeavesIn (snd (fs ! i)) (drop p pa) (drop q pb)
           | _ \<Rightarrow> True)
      | _ \<Rightarrow> True)"
| "differentLeavesIn ft la lb =
     (if la = [] \<or> lb = [] then \<not> (la = [] \<and> lb = [])
      else case ft of
        TStruct n fs \<Rightarrow> differentLeaves ft la lb
      | TPtr n et \<Rightarrow> differentLeaves et la lb
      | TMap n kt vt \<Rightarrow> Join la \<noteq> Join lb
      | TSlice n et \<Rightarrow>
          (case (Atoi (hd la), Atoi (hd lb)) of
             (Some ia, Some ib) \<Rightarrow>
               ia \<noteq> ib \<or>
               (if tl la = [] \<or> tl lb = [] then \<not> (tl la = [] \<and> tl lb = [])
                else case et of
                  TStruct sn sfs \<Rightarrow> differentLeaves et (tl la) (tl lb)
                | TPtr pn pt \<Rightarrow> differentLeaves pt (tl la) (tl lb)
                | _ \<Rightarrow> True)
           | _ \<Rightarrow> True)
      | _ \<Rightarrow> True)"
  by pat_completeness auto
termination
  apply (relation "measure (\<lambda>x. case x of
            Inl (typ, pa, pb) \<Rightarrow> 2 * length pa
          | Inr (ft, la, lb) \<Rightarrow> 2 * length la + 1)")
      apply (auto dest!: prefixLoop_bounds prefixLoop_bounds [OF sym])
  done

declare differentLeaves.simps [simp del] differentLeavesIn.simps [simp del]

text \<open>The keys \<open>AB\<close> and \<open>A_B\<close> above have the same leaf, the field \<^verbatim>\<open>AB\<close>.\<close>

lemma same_leaf_AB: "\<not> differentLeaves abType (Split ''AB'') (Split ''A_B'')"
  by (simp add: abType_def differentLeaves.simps differentLeavesIn.simps normalize_def
        ToLower_def toLowerByte_def)

text \<open>
  Two operations on a value commute at \<open>v\<close>: when the first and then the second succeed,
  so do the second and then the first, with the same final value.
\<close>

definition commute ::
  "(goval \<Rightarrow> goval \<times> outcome) \<Rightarrow> (goval \<Rightarrow> goval \<times> outcome) \<Rightarrow> goval \<Rightarrow> bool" where
  "commute A B v =
     (\<forall>v1 v2. A v = (v1, Success) \<longrightarrow> B v1 = (v2, Success) \<longrightarrow>
        (\<exists>u. B v = (u, Success) \<and> A u = (v2, Success)))"

lemma commuteI:
  "(\<And>v1 v2. A v = (v1, Success) \<Longrightarrow> B v1 = (v2, Success) \<Longrightarrow>
      \<exists>u. B v = (u, Success) \<and> A u = (v2, Success)) \<Longrightarrow> commute A B v"
  by (simp add: commute_def)

lemma commute_never_left: "(\<And>x. snd (A x) \<noteq> Success) \<Longrightarrow> commute A B v"
  by (auto simp: commute_def) (metis snd_conv)

lemma commute_never_right: "(\<And>x. snd (B x) \<noteq> Success) \<Longrightarrow> commute A B v"
  by (auto simp: commute_def) (metis snd_conv)

lemma commute_skip_left: "(\<And>x. A x = (x, Success)) \<Longrightarrow> commute A B v"
  by (auto simp: commute_def)

lemma commute_skip_right: "(\<And>x. B x = (x, Success)) \<Longrightarrow> commute A B v"
  by (auto simp: commute_def)

text \<open>An operation on a field of a record, on the pointee of a pointer, on an element of a slice.\<close>

definition fieldOp :: "nat \<Rightarrow> (goval \<Rightarrow> goval \<times> outcome) \<Rightarrow> goval \<Rightarrow> goval \<times> outcome" where
  "fieldOp i F v = (case F (getFieldValue v i) of (fv, out) \<Rightarrow> (setField v i fv, out))"

definition ptrOp :: "goval \<Rightarrow> (goval \<Rightarrow> goval \<times> outcome) \<Rightarrow> goval \<Rightarrow> goval \<times> outcome" where
  "ptrOp z F fv =
     (case F (case fv of VPtr (Some e) \<Rightarrow> e | _ \<Rightarrow> z) of (e', out) \<Rightarrow> (VPtr (Some e'), out))"

definition grow :: "goval \<Rightarrow> nat \<Rightarrow> goval list \<Rightarrow> goval list" where
  "grow z i xs = (if length xs \<le> i then xs @ replicate (Suc i - length xs) z else xs)"

definition sliceOp ::
  "goval \<Rightarrow> int \<Rightarrow> (goval \<Rightarrow> goval \<times> outcome) \<Rightarrow> goval \<Rightarrow> goval \<times> outcome" where
  "sliceOp z ix F fv =
     (let xs = (case fv of VSlice (Some xs) \<Rightarrow> xs | _ \<Rightarrow> [])
      in if ix \<ge> int (length xs) \<and> ix + 1 \<ge> 2 ^ 63
         then (VSlice (Some xs), Panic MakeSliceNegativeLen)
         else if ix < 0 then (VSlice (Some xs), Panic SliceIndexOutOfRange)
              else case F (grow z (nat ix) xs ! nat ix) of
                     (e', out) \<Rightarrow> (VSlice (Some ((grow z (nat ix) xs)[nat ix := e'])), out))"

lemma commute_fieldOp_diff:
  assumes "i \<noteq> j"
  shows "commute (fieldOp i F) (fieldOp j G) v"
proof (rule commuteI)
  fix v1 v2
  assume a: "fieldOp i F v = (v1, Success)" and b: "fieldOp j G v1 = (v2, Success)"
  obtain fa oa where fa: "F (getFieldValue v i) = (fa, oa)" by (cases "F (getFieldValue v i)")
  obtain fb ob where fb: "G (getFieldValue v j) = (fb, ob)" by (cases "G (getFieldValue v j)")
  from a fa have 1: "v1 = setField v i fa" "oa = Success"
    by (simp_all add: fieldOp_def)
  from b fb 1 assms have 2: "v2 = setField (setField v i fa) j fb" "ob = Success"
    by (simp_all add: fieldOp_def getFieldValue_setField_other)
  have "fieldOp j G v = (setField v j fb, Success)"
    using fb 2 by (simp add: fieldOp_def)
  moreover have "fieldOp i F (setField v j fb) = (v2, Success)"
    using fa 1 2 assms setField_swap [OF assms] assms [symmetric]
    by (simp add: fieldOp_def getFieldValue_setField_other)
  ultimately show "\<exists>u. fieldOp j G v = (u, Success) \<and> fieldOp i F u = (v2, Success)"
    by blast
qed

lemma getFieldValue_setField_same:
  "getFieldValue (setField v i x) i = x \<or> (\<forall>y. setField v i y = v)"
proof (cases v)
  case (VStruct vs)
  then show ?thesis
    by (cases "i < length vs") (simp_all add: getFieldValue_def setField_def list_update_beyond)
qed (simp_all add: setField_def)

lemma setField_setField: "setField (setField v i x) i y = setField v i y"
  by (cases v) (simp_all add: setField_def)

lemma commute_fieldOp_same:
  assumes "\<And>x. commute F G x"
  shows "commute (fieldOp i F) (fieldOp i G) v"
proof (rule commuteI)
  fix v1 v2
  assume a: "fieldOp i F v = (v1, Success)" and b: "fieldOp i G v1 = (v2, Success)"
  obtain fa oa where fa: "F (getFieldValue v i) = (fa, oa)" by (cases "F (getFieldValue v i)")
  from a fa have 1: "v1 = setField v i fa" "oa = Success"
    by (simp_all add: fieldOp_def)
  show "\<exists>u. fieldOp i G v = (u, Success) \<and> fieldOp i F u = (v2, Success)"
  proof (cases "\<forall>y. setField v i y = v")
    case True
    then have "v1 = v" using 1 by simp
    with a b True show ?thesis
      by (auto simp: fieldOp_def split: prod.splits)
  next
    case False
    then have get: "getFieldValue (setField v i x) i = x" for x
      using getFieldValue_setField_same [of v i x] by blast
    obtain fb ob where fb: "G fa = (fb, ob)" by (cases "G fa")
    from b 1 fb have 2: "v2 = setField v i fb" "ob = Success"
      by (simp_all add: fieldOp_def get setField_setField)
    from assms [of "getFieldValue v i"] fa fb 1 2 obtain u where
      u: "G (getFieldValue v i) = (u, Success)" "F u = (fb, Success)"
      by (auto simp: commute_def)
    have "fieldOp i G v = (setField v i u, Success)"
      using u by (simp add: fieldOp_def)
    moreover have "fieldOp i F (setField v i u) = (v2, Success)"
      using u 2 by (simp add: fieldOp_def get setField_setField)
    ultimately show ?thesis by blast
  qed
qed

lemma commute_ptrOp:
  assumes "\<And>x. commute F G x"
  shows "commute (ptrOp z F) (ptrOp z G) fv"
proof (rule commuteI)
  fix v1 v2
  assume a: "ptrOp z F fv = (v1, Success)" and b: "ptrOp z G v1 = (v2, Success)"
  define e where "e = (case fv of VPtr (Some e) \<Rightarrow> e | _ \<Rightarrow> z)"
  obtain ea oa where ea: "F e = (ea, oa)" by (cases "F e")
  from a ea have 1: "v1 = VPtr (Some ea)" "oa = Success"
    by (simp_all add: ptrOp_def e_def)
  obtain eb ob where eb: "G ea = (eb, ob)" by (cases "G ea")
  from b 1 eb have 2: "v2 = VPtr (Some eb)" "ob = Success"
    by (simp_all add: ptrOp_def)
  from assms [of e] ea eb 1 2 obtain u where u: "G e = (u, Success)" "F u = (eb, Success)"
    by (auto simp: commute_def)
  have "ptrOp z G fv = (VPtr (Some u), Success)"
    using u by (simp add: ptrOp_def e_def)
  moreover have "ptrOp z F (VPtr (Some u)) = (v2, Success)"
    using u 2 by (simp add: ptrOp_def)
  ultimately show "\<exists>u. ptrOp z G fv = (u, Success) \<and> ptrOp z F u = (v2, Success)"
    by blast
qed


lemma length_grow: "length (grow z i xs) = max (length xs) (Suc i)"
  by (auto simp: grow_def)

lemma nth_grow:
  "k < length (grow z i xs) \<Longrightarrow> grow z i xs ! k = (if k < length xs then xs ! k else z)"
  by (auto simp: grow_def nth_append)

lemma nth_grow_update:
  "k < max (length xs) (Suc a) \<Longrightarrow>
   ((grow z a xs)[a := e]) ! k = (if k = a then e else if k < length xs then xs ! k else z)"
  by (simp add: nth_list_update length_grow nth_grow)

lemma grow_fixed: "i < length xs \<Longrightarrow> grow z i xs = xs"
  by (simp add: grow_def)

lemma sliceOp_Success:
  "sliceOp z ix F fv = (v1, Success) \<longleftrightarrow>
     0 \<le> ix \<and> \<not> (int (length (sliceElems fv)) \<le> ix \<and> 2 ^ 63 \<le> ix + 1) \<and>
     (\<exists>e. F (grow z (nat ix) (sliceElems fv) ! nat ix) = (e, Success) \<and>
          v1 = VSlice (Some ((grow z (nat ix) (sliceElems fv))[nat ix := e])))"
proof -
  have xs: "(case fv of VSlice (Some xs) \<Rightarrow> xs | _ \<Rightarrow> []) = sliceElems fv"
    by (simp add: sliceElems_def)
  obtain e out where f: "F (grow z (nat ix) (sliceElems fv) ! nat ix) = (e, out)"
    by (cases "F (grow z (nat ix) (sliceElems fv) ! nat ix)")
  show ?thesis
    unfolding sliceOp_def xs Let_def using f by auto
qed

lemma commute_sliceOp_same:
  assumes "\<And>x. commute F G x"
  shows "commute (sliceOp z ix F) (sliceOp z ix G) fv"
proof (rule commuteI)
  fix v1 v2
  assume a: "sliceOp z ix F fv = (v1, Success)" and b: "sliceOp z ix G v1 = (v2, Success)"
  define xs where "xs = sliceElems fv"
  define i where "i = nat ix"
  define ys where "ys = grow z i xs"
  from a obtain ea where
    1: "0 \<le> ix" "\<not> (int (length xs) \<le> ix \<and> 2 ^ 63 \<le> ix + 1)"
       "F (ys ! i) = (ea, Success)" "v1 = VSlice (Some (ys[i := ea]))"
    unfolding sliceOp_Success xs_def ys_def i_def by blast
  have len: "i < length ys"
    by (simp add: ys_def length_grow)
  have lt: "ix < int (length ys)"
    using len 1(1) by (simp add: i_def)
  have e1: "sliceElems v1 = ys[i := ea]"
    using 1 by (simp add: sliceElems_def)
  have g1: "grow z i (ys[i := e]) = ys[i := e]" for e
    using len by (simp add: grow_fixed)
  from b obtain eb where
    2: "G ea = (eb, Success)" "v2 = VSlice (Some (ys[i := eb]))"
    unfolding sliceOp_Success e1 i_def [symmetric] g1 using len by auto
  from assms [of "ys ! i"] 1 2 obtain u where u: "G (ys ! i) = (u, Success)" "F u = (eb, Success)"
    by (auto simp: commute_def)
  have "sliceOp z ix G fv = (VSlice (Some (ys[i := u])), Success)"
    unfolding sliceOp_Success using 1 u by (simp add: xs_def ys_def i_def)
  moreover have "sliceOp z ix F (VSlice (Some (ys[i := u]))) = (v2, Success)"
    unfolding sliceOp_Success using 1(1) u 2 len lt
    by (simp add: sliceElems_def i_def [symmetric] g1)
  ultimately show "\<exists>u. sliceOp z ix G fv = (u, Success) \<and> sliceOp z ix F u = (v2, Success)"
    by blast
qed

lemma grow_twice:
  assumes "a \<noteq> b"
  shows "(grow z b ((grow z a xs)[a := ea]))[b := eb] = (grow z a ((grow z b xs)[b := eb]))[a := ea]"
proof (rule nth_equalityI)
  show "length ((grow z b ((grow z a xs)[a := ea]))[b := eb])
          = length ((grow z a ((grow z b xs)[b := eb]))[a := ea])"
    by (simp add: length_grow max.commute max.left_commute)
next
  fix k assume "k < length ((grow z b ((grow z a xs)[a := ea]))[b := eb])"
  then have k: "k < max (max (length xs) (Suc a)) (Suc b)"
    by (simp add: length_grow)
  have l: "((grow z b ((grow z a xs)[a := ea]))[b := eb]) ! k
             = (if k = b then eb else if k = a then ea else if k < length xs then xs ! k else z)"
    using k assms by (subst nth_grow_update) (auto simp: length_grow nth_grow_update nth_grow)
  have k': "k < max (max (length xs) (Suc b)) (Suc a)"
    using k by auto
  have r: "((grow z a ((grow z b xs)[b := eb]))[a := ea]) ! k
             = (if k = a then ea else if k = b then eb else if k < length xs then xs ! k else z)"
    using k' assms by (subst nth_grow_update) (auto simp: length_grow nth_grow_update nth_grow)
  show "((grow z b ((grow z a xs)[a := ea]))[b := eb]) ! k
          = ((grow z a ((grow z b xs)[b := eb]))[a := ea]) ! k"
    unfolding l r using assms by auto
qed

lemma grow_read_other:
  assumes "a \<noteq> b"
  shows "grow z b ((grow z a xs)[a := ea]) ! b = grow z b xs ! b"
proof -
  have "grow z b ((grow z a xs)[a := ea]) ! b
          = (if b < length ((grow z a xs)[a := ea]) then ((grow z a xs)[a := ea]) ! b else z)"
    by (rule nth_grow) (simp add: length_grow)
  also have "\<dots> = (if b < length xs then xs ! b else z)"
    using assms by (auto simp: length_grow nth_grow_update nth_grow)
  also have "\<dots> = grow z b xs ! b"
    by (rule nth_grow [symmetric]) (simp add: length_grow)
  finally show ?thesis .
qed

lemma commute_sliceOp_diff:
  assumes "ia \<noteq> ib"
  shows "commute (sliceOp z ia F) (sliceOp z ib G) fv"
proof (rule commuteI)
  fix v1 v2
  assume a: "sliceOp z ia F fv = (v1, Success)" and b: "sliceOp z ib G v1 = (v2, Success)"
  define xs where "xs = sliceElems fv"
  from a obtain ea where
    1: "0 \<le> ia" "\<not> (int (length xs) \<le> ia \<and> 2 ^ 63 \<le> ia + 1)"
       "F (grow z (nat ia) xs ! nat ia) = (ea, Success)"
       "v1 = VSlice (Some ((grow z (nat ia) xs)[nat ia := ea]))"
    unfolding sliceOp_Success xs_def by blast
  have e1: "sliceElems v1 = (grow z (nat ia) xs)[nat ia := ea]"
    using 1 by (simp add: sliceElems_def)
  from b obtain eb where
    2: "0 \<le> ib"
       "\<not> (int (length ((grow z (nat ia) xs)[nat ia := ea])) \<le> ib \<and> 2 ^ 63 \<le> ib + 1)"
       "G (grow z (nat ib) ((grow z (nat ia) xs)[nat ia := ea]) ! nat ib) = (eb, Success)"
       "v2 = VSlice (Some ((grow z (nat ib) ((grow z (nat ia) xs)[nat ia := ea]))[nat ib := eb]))"
    unfolding sliceOp_Success e1 by blast
  have ne: "nat ia \<noteq> nat ib"
    using assms 1(1) 2(1) by simp
  have g: "G (grow z (nat ib) xs ! nat ib) = (eb, Success)"
    using 2(3) unfolding grow_read_other [OF ne] .
  have nb: "\<not> (int (length xs) \<le> ib \<and> 2 ^ 63 \<le> ib + 1)"
    using 1(1,2) 2(1,2) assms by (auto simp: length_grow)
  define u where "u = VSlice (Some ((grow z (nat ib) xs)[nat ib := eb]))"
  have bu: "sliceOp z ib G fv = (u, Success)"
    unfolding sliceOp_Success u_def using 2(1) nb g by (simp add: xs_def)
  have eu: "sliceElems u = (grow z (nat ib) xs)[nat ib := eb]"
    by (simp add: u_def sliceElems_def)
  have na: "\<not> (int (length ((grow z (nat ib) xs)[nat ib := eb])) \<le> ia \<and> 2 ^ 63 \<le> ia + 1)"
    using 1(1,2) 2(1) by (auto simp: length_grow)
  have f: "F (grow z (nat ia) ((grow z (nat ib) xs)[nat ib := eb]) ! nat ia) = (ea, Success)"
    using 1(3) unfolding grow_read_other [OF ne [symmetric]] .
  have "sliceOp z ia F u = (v2, Success)"
    unfolding sliceOp_Success eu using 1(1) na f 2(4) grow_twice [OF ne, of z xs ea eb]
    by simp
  with bu show "\<exists>u. sliceOp z ib G fv = (u, Success) \<and> sliceOp z ia F u = (v2, Success)"
    by blast
qed


text \<open>The operation on a slice element: the terminal write, or the descent into it.\<close>

definition elemOp ::
  "stdlib \<Rightarrow> gotype \<Rightarrow> string list \<Rightarrow> string \<Rightarrow> string \<Rightarrow> goval \<Rightarrow> goval \<times> outcome" where
  "elemOp L et rest rawVal name e =
     (if rest = [] then setBasicValue L et e rawVal
      else case et of
        TPtr pn pt \<Rightarrow> ptrOp (zero pt) (\<lambda>x. assignValue L pt x rest rawVal) e
      | TStruct sn sfs \<Rightarrow> assignValue L et e rest rawVal
      | _ \<Rightarrow> (e, Error (CannotDescendSliceElem (Kind et) name)))"

lemma assignValue_Nil: "assignValue L t v [] r = (v, Success)"
  by (simp add: assignValue.simps)

lemma assignValue_not_struct:
  "parts \<noteq> [] \<Longrightarrow> \<forall>n fs. t \<noteq> TStruct n fs \<Longrightarrow> snd (assignValue L t v parts r) \<noteq> Success"
  by (cases t) (simp_all add: assignValue.simps)

lemma assignValue_no_match:
  "prefixLoop fs parts (length parts) = None \<Longrightarrow>
   assignValue L (TStruct n fs) v parts r = (v, Success)"
  by (simp add: assignValue.simps)

lemma assignValue_fieldOp:
  "prefixLoop fs parts (length parts) = Some (p, i) \<Longrightarrow>
   assignValue L (TStruct n fs) v parts r
     = fieldOp i (\<lambda>fv. assignField L (fs ! i) fv (drop p parts) r) v"
  using prefixLoop_bounds [of fs parts "length parts" p i]
  by (auto simp: assignValue.simps fieldOp_def)

lemma assignField_struct:
  "leftover \<noteq> [] \<Longrightarrow> snd field = TStruct n fs \<Longrightarrow>
   assignField L field fv leftover r = assignValue L (snd field) fv leftover r"
  by (simp add: assignField.simps)

lemma assignField_ptr:
  "leftover \<noteq> [] \<Longrightarrow> snd field = TPtr n et \<Longrightarrow> Kind et = KStruct \<Longrightarrow>
   assignField L field fv leftover r = ptrOp (zero et) (\<lambda>e. assignValue L et e leftover r) fv"
  by (simp add: assignField.simps ptrOp_def)

lemma assignField_ptr_fails:
  "leftover \<noteq> [] \<Longrightarrow> snd field = TPtr n et \<Longrightarrow> Kind et \<noteq> KStruct \<Longrightarrow>
   snd (assignField L field fv leftover r) \<noteq> Success"
  by (simp add: assignField.simps)

lemma assignField_map:
  "leftover \<noteq> [] \<Longrightarrow> snd field = TMap n kt vt \<Longrightarrow>
   assignField L field fv leftover r
     = setMapValue L kt vt (case fv of VMap (Some m) \<Rightarrow> fv | _ \<Rightarrow> VMap (Some Map.empty))
         (Join leftover) r"
  by (simp add: assignField.simps)

lemma assignField_slice_fails:
  "leftover \<noteq> [] \<Longrightarrow> snd field = TSlice n et \<Longrightarrow> Atoi (hd leftover) = None \<Longrightarrow>
   snd (assignField L field fv leftover r) \<noteq> Success"
  by (simp add: assignField.simps)

lemma assignField_other_fails:
  "leftover \<noteq> [] \<Longrightarrow> snd field = TBasic n k \<or> snd field = TDuration \<or> snd field = TInterface n m \<Longrightarrow>
   snd (assignField L field fv leftover r) \<noteq> Success"
  by (auto simp: assignField.simps)

lemma grow_as_source:
  "0 \<le> ix \<Longrightarrow>
   (if int (length xs) \<le> ix then xs @ replicate (nat (ix + 1) - length xs) z else xs)
     = grow z (nat ix) xs"
  by (auto simp: grow_def nat_add_distrib)

lemma assignField_slice:
  assumes "leftover \<noteq> []" and "snd field = TSlice n et" and "Atoi (hd leftover) = Some ix"
  shows "assignField L field fv leftover r
           = sliceOp (zero et) ix (elemOp L et (tl leftover) r (fst field)) fv"
proof -
  define xs where "xs = (case fv of VSlice (Some xs) \<Rightarrow> xs | _ \<Rightarrow> [])"
  have more: "1 < length leftover \<longleftrightarrow> tl leftover \<noteq> []"
    using assms(1) by (cases leftover) auto
  show ?thesis
  proof (cases "int (length xs) \<le> ix \<and> 2 ^ 63 \<le> ix + 1")
    case True
    then show ?thesis
      using assms by (simp add: assignField.simps sliceOp_def xs_def [symmetric] Let_def)
  next
    case False
    show ?thesis
    proof (cases "ix < 0")
      case True
      then have "\<not> int (length xs) \<le> ix" by simp
      then show ?thesis
        using assms True False
        by (simp add: assignField.simps sliceOp_def xs_def [symmetric] Let_def)
    next
      case nn: False
      then have g: "(if int (length xs) \<le> ix then xs @ replicate (nat (ix + 1) - length xs) (zero et) else xs)
                      = grow (zero et) (nat ix) xs"
        by (intro grow_as_source) simp
      define ys where "ys = grow (zero et) (nat ix) xs"
      have lhs: "assignField L field fv leftover r =
         (if 1 < length leftover then
            (case et of
               TPtr pn pt \<Rightarrow>
                 (case assignValue L pt (case ys ! nat ix of VPtr (Some e) \<Rightarrow> e | _ \<Rightarrow> zero pt)
                         (tl leftover) r of
                    (e', out) \<Rightarrow> (VSlice (Some (ys[nat ix := VPtr (Some e')])), out))
             | TStruct sn sfs \<Rightarrow>
                 (case assignValue L et (ys ! nat ix) (tl leftover) r of
                    (e', out) \<Rightarrow> (VSlice (Some (ys[nat ix := e'])), out))
             | _ \<Rightarrow> (VSlice (Some ys), Error (CannotDescendSliceElem (Kind et) (fst field))))
          else (case setBasicValue L et (ys ! nat ix) r of
                  (e', out) \<Rightarrow> (VSlice (Some (ys[nat ix := e'])), out)))"
        apply (subst assignField.simps)
        apply (simp only: assms if_False gotype.case option.case Let_def xs_def [symmetric]
                 False nn g ys_def [symmetric])
        done
      have rhs: "sliceOp (zero et) ix (elemOp L et (tl leftover) r (fst field)) fv =
         (case elemOp L et (tl leftover) r (fst field) (ys ! nat ix) of
            (e', out) \<Rightarrow> (VSlice (Some (ys[nat ix := e'])), out))"
        using False nn by (auto simp: sliceOp_def xs_def [symmetric] Let_def ys_def)
      show ?thesis
        unfolding lhs rhs more
        by (cases et) (auto simp: elemOp_def ptrOp_def split: prod.splits)
    qed
  qed
qed


lemma basicType_not_struct: "basicType t \<Longrightarrow> \<forall>n fs. t \<noteq> TStruct n fs"
  by (cases t) simp_all

lemma basicType_Kind: "basicType t \<Longrightarrow> Kind t \<noteq> KStruct"
  by (cases t) auto

lemma assignField_basicType_fails:
  assumes "basicType (snd field)" and "leftover \<noteq> []"
  shows "snd (assignField L field fv leftover r) \<noteq> Success"
proof (cases "snd field")
  case (TPtr n et)
  with assms(1) have "Kind et \<noteq> KStruct"
    by (simp add: basicType_Kind)
  then show ?thesis
    using assms(2) TPtr by (rule assignField_ptr_fails [rotated 2])
qed (use assms in \<open>auto simp: assignField.simps\<close>)

lemma elemOp_basicType_fails:
  assumes "basicType et" and "rest \<noteq> []"
  shows "snd (elemOp L et rest r name e) \<noteq> Success"
proof (cases et)
  case (TPtr pn pt)
  with assms(1) have "\<forall>n fs. pt \<noteq> TStruct n fs"
    by (simp add: basicType_not_struct)
  then have "assignValue L pt x rest r \<noteq> (y, Success)" for x y
    using assms(2) assignValue_not_struct [of rest pt L x r] by auto
  then show ?thesis
    using assms(2) TPtr by (auto simp: elemOp_def ptrOp_def split: prod.splits)
qed (use assms in \<open>auto simp: elemOp_def\<close>)

lemma commute_setMapValue:
  assumes "ka \<noteq> kb"
  shows "commute
           (\<lambda>fv. setMapValue L kt vt (case fv of VMap (Some m) \<Rightarrow> fv | _ \<Rightarrow> VMap (Some Map.empty)) ka ra)
           (\<lambda>fv. setMapValue L kt vt (case fv of VMap (Some m) \<Rightarrow> fv | _ \<Rightarrow> VMap (Some Map.empty)) kb rb)
           fv"
proof (rule commuteI)
  fix v1 v2
  let ?init = "\<lambda>fv. case fv of VMap (Some m) \<Rightarrow> fv | _ \<Rightarrow> VMap (Some Map.empty)"
  define co where "co = (\<lambda>r. if isEmptyInterface vt then (VString r, Success)
                              else setBasicValue L vt (zero vt) r)"
  have set: "setMapValue L kt vt x k r = (y, Success) \<longleftrightarrow>
               Kind kt = KString \<and> kt = TBasic ''string'' KString \<and> snd (co r) = Success \<and>
               y = SetMapIndex x k (fst (co r))" for x k r y
    unfolding setMapValue_def co_def
    by (cases "if isEmptyInterface vt then (VString r, Success) else setBasicValue L vt (zero vt) r";
        cases "snd (if isEmptyInterface vt then (VString r, Success) else setBasicValue L vt (zero vt) r)")
       (auto simp del: setBasicValue.simps)
  have init_set: "?init (SetMapIndex (?init x) k c) = SetMapIndex (?init x) k c" for x k c
    by (auto simp: SetMapIndex_def split: goval.splits option.splits)
  have twist: "SetMapIndex (SetMapIndex (?init x) ka a) kb b
                 = SetMapIndex (SetMapIndex (?init x) kb b) ka a" for x a b
    using assms by (auto simp: SetMapIndex_def fun_upd_twist split: goval.splits option.splits)
  assume a: "setMapValue L kt vt (?init fv) ka ra = (v1, Success)"
    and b: "setMapValue L kt vt (?init v1) kb rb = (v2, Success)"
  from a have 1: "Kind kt = KString" "kt = TBasic ''string'' KString" "snd (co ra) = Success"
    "v1 = SetMapIndex (?init fv) ka (fst (co ra))"
    unfolding set by simp_all
  from b have 2: "snd (co rb) = Success" "v2 = SetMapIndex (?init v1) kb (fst (co rb))"
    unfolding set by simp_all
  define u where "u = SetMapIndex (?init fv) kb (fst (co rb))"
  have "setMapValue L kt vt (?init fv) kb rb = (u, Success)"
    unfolding set u_def using 1 2 by simp
  moreover have "setMapValue L kt vt (?init u) ka ra = (v2, Success)"
    unfolding set using 1(1-3) 2(1) unfolding 2(2) 1(4) u_def init_set twist by simp
  ultimately show "\<exists>u. setMapValue L kt vt (?init fv) kb rb = (u, Success) \<and>
        setMapValue L kt vt (?init u) ka ra = (v2, Success)"
    by blast
qed


lemma terminal_or_descent:
  assumes "\<And>x. snd (A x) = Success \<Longrightarrow> basicType t"
    and "basicType t \<Longrightarrow> (\<And>x. snd (B x) \<noteq> Success)"
  shows "commute A B v" and "commute B A v"
proof -
  show "commute A B v"
  proof (cases "basicType t")
    case True
    then show ?thesis using assms(2) by (intro commute_never_right) blast
  next
    case False
    then show ?thesis using assms(1) by (intro commute_never_left) blast
  qed
  show "commute B A v"
  proof (cases "basicType t")
    case True
    then show ?thesis using assms(2) by (intro commute_never_left) blast
  next
    case False
    then show ?thesis using assms(1) by (intro commute_never_right) blast
  qed
qed

lemma differentLeaves_commute:
  "differentLeaves t pa pb \<Longrightarrow>
   commute (\<lambda>x. assignValue L t x pa ra) (\<lambda>x. assignValue L t x pb rb) v"
proof (induction "length pa" arbitrary: t pa pb v rule: less_induct)
  case less
  note IH = less.hyps
  have elem: "commute (elemOp L et ta ra nm) (elemOp L et tb rb nm) e"
    if d: "if ta = [] \<or> tb = [] then \<not> (ta = [] \<and> tb = [])
           else case et of TStruct sn sfs \<Rightarrow> differentLeaves et ta tb
                         | TPtr pn pt \<Rightarrow> differentLeaves pt ta tb | _ \<Rightarrow> True"
      and len: "length ta < length pa" for et ta tb nm e
  proof (cases "ta = [] \<or> tb = []")
    case True
    show ?thesis
    proof (cases "ta = []")
      case True
      with d have tb: "tb \<noteq> []" by auto
      have a: "elemOp L et ta ra nm = (\<lambda>x. setBasicValue L et x ra)"
        using True by (auto simp: elemOp_def)
      show ?thesis
        unfolding a
        by (rule terminal_or_descent(1) [where t = et])
           (auto dest: setBasicValue_Success_basicType elemOp_basicType_fails [OF _ tb])
    next
      case False
      with True have tb: "tb = []" by simp
      have b: "elemOp L et tb rb nm = (\<lambda>x. setBasicValue L et x rb)"
        using tb by (auto simp: elemOp_def)
      show ?thesis
        unfolding b
        by (rule terminal_or_descent(2) [where t = et])
           (auto dest: setBasicValue_Success_basicType elemOp_basicType_fails [OF _ False])
    qed
  next
    case False
    then have ne: "ta \<noteq> []" "tb \<noteq> []" by auto
    show ?thesis
    proof (cases et)
      case (TStruct sn sfs)
      have a: "elemOp L et ta ra nm = (\<lambda>x. assignValue L et x ta ra)"
        and b: "elemOp L et tb rb nm = (\<lambda>x. assignValue L et x tb rb)"
        using ne TStruct by (auto simp: elemOp_def)
      have "differentLeaves et ta tb"
        using d False TStruct by simp
      from IH [OF len this] show ?thesis
        unfolding a b .
    next
      case (TPtr pn pt)
      have a: "elemOp L et ta ra nm = ptrOp (zero pt) (\<lambda>x. assignValue L pt x ta ra)"
        and b: "elemOp L et tb rb nm = ptrOp (zero pt) (\<lambda>x. assignValue L pt x tb rb)"
        using ne TPtr by (auto simp: elemOp_def)
      have "differentLeaves pt ta tb"
        using d False TPtr by simp
      from IH [OF len this] show ?thesis
        unfolding a b by (intro commute_ptrOp)
    next
      case (TBasic bn k)
      then show ?thesis using ne by (intro commute_never_left) (simp add: elemOp_def)
    next
      case TDuration
      then show ?thesis using ne by (intro commute_never_left) (simp add: elemOp_def)
    next
      case (TMap mn kt vt)
      then show ?thesis using ne by (intro commute_never_left) (simp add: elemOp_def)
    next
      case (TSlice sn st)
      then show ?thesis using ne by (intro commute_never_left) (simp add: elemOp_def)
    next
      case (TInterface inn m)
      then show ?thesis using ne by (intro commute_never_left) (simp add: elemOp_def)
    qed
  qed
  have field: "commute (\<lambda>x. assignField L field x la ra) (\<lambda>x. assignField L field x lb rb) fv"
    if d: "differentLeavesIn (snd field) la lb" and len: "length la < length pa"
    for field la lb fv
  proof (cases "la = [] \<or> lb = []")
    case True
    show ?thesis
    proof (cases "la = []")
      case True
      with d have lb: "lb \<noteq> []" by (auto simp: differentLeavesIn.simps)
      have a: "(\<lambda>x. assignField L field x la ra) = (\<lambda>x. setBasicValue L (snd field) x ra)"
        using True by (auto simp: assignField.simps)
      show ?thesis
        unfolding a
        by (rule terminal_or_descent(1) [where t = "snd field"])
           (auto dest: setBasicValue_Success_basicType assignField_basicType_fails [OF _ lb])
    next
      case False
      with True have lb: "lb = []" by simp
      have b: "(\<lambda>x. assignField L field x lb rb) = (\<lambda>x. setBasicValue L (snd field) x rb)"
        using lb by (auto simp: assignField.simps)
      show ?thesis
        unfolding b
        by (rule terminal_or_descent(2) [where t = "snd field"])
           (auto dest: setBasicValue_Success_basicType assignField_basicType_fails [OF _ False])
    qed
  next
    case False
    then have ne: "la \<noteq> []" "lb \<noteq> []" by auto
    show ?thesis
    proof (cases "snd field")
      case (TStruct n fs)
      have a: "(\<lambda>x. assignField L field x la ra) = (\<lambda>x. assignValue L (snd field) x la ra)"
        and b: "(\<lambda>x. assignField L field x lb rb) = (\<lambda>x. assignValue L (snd field) x lb rb)"
        using ne TStruct by (auto simp: assignField_struct)
      have "differentLeaves (snd field) la lb"
        using d False TStruct by (simp add: differentLeavesIn.simps)
      from IH [OF len this] show ?thesis
        unfolding a b .
    next
      case (TPtr n et)
      show ?thesis
      proof (cases "Kind et = KStruct")
        case True
        have a: "(\<lambda>x. assignField L field x la ra) = ptrOp (zero et) (\<lambda>e. assignValue L et e la ra)"
          and b: "(\<lambda>x. assignField L field x lb rb) = ptrOp (zero et) (\<lambda>e. assignValue L et e lb rb)"
          using ne TPtr True by (auto simp: assignField_ptr)
        have "differentLeaves et la lb"
          using d False TPtr by (simp add: differentLeavesIn.simps)
        from IH [OF len this] show ?thesis
          unfolding a b by (intro commute_ptrOp)
      next
        case False
        then show ?thesis
          using ne TPtr by (intro commute_never_left) (simp add: assignField_ptr_fails)
      qed
    next
      case (TMap n kt vt)
      have a: "(\<lambda>x. assignField L field x la ra)
                 = (\<lambda>fv. setMapValue L kt vt (case fv of VMap (Some m) \<Rightarrow> fv | _ \<Rightarrow> VMap (Some Map.empty)) (Join la) ra)"
        and b: "(\<lambda>x. assignField L field x lb rb)
                 = (\<lambda>fv. setMapValue L kt vt (case fv of VMap (Some m) \<Rightarrow> fv | _ \<Rightarrow> VMap (Some Map.empty)) (Join lb) rb)"
        using ne TMap by (auto simp: assignField_map)
      have "Join la \<noteq> Join lb"
        using d False TMap by (simp add: differentLeavesIn.simps)
      then show ?thesis
        unfolding a b by (rule commute_setMapValue)
    next
      case (TSlice n et)
      show ?thesis
      proof (cases "Atoi (hd la)")
        case None
        then show ?thesis
          using ne TSlice by (intro commute_never_left) (simp add: assignField_slice_fails)
      next
        case (Some ia)
        note ia = Some
        show ?thesis
        proof (cases "Atoi (hd lb)")
          case None
          then show ?thesis
            using ne TSlice by (intro commute_never_right) (simp add: assignField_slice_fails)
        next
          case (Some ib)
          have a: "(\<lambda>x. assignField L field x la ra)
                     = sliceOp (zero et) ia (elemOp L et (tl la) ra (fst field))"
            and b: "(\<lambda>x. assignField L field x lb rb)
                     = sliceOp (zero et) ib (elemOp L et (tl lb) rb (fst field))"
            using ne TSlice ia Some by (auto simp: assignField_slice)
          show ?thesis
          proof (cases "ia = ib")
            case False
            then show ?thesis
              unfolding a b by (rule commute_sliceOp_diff)
          next
            case True
            have "if tl la = [] \<or> tl lb = [] then \<not> (tl la = [] \<and> tl lb = [])
                  else case et of TStruct sn sfs \<Rightarrow> differentLeaves et (tl la) (tl lb)
                                | TPtr pn pt \<Rightarrow> differentLeaves pt (tl la) (tl lb) | _ \<Rightarrow> True"
              using d \<open>\<not> (la = [] \<or> lb = [])\<close> TSlice ia Some True
              by (simp add: differentLeavesIn.simps)
            moreover have "length (tl la) < length pa"
              using len by simp
            ultimately have "commute (elemOp L et (tl la) ra (fst field))
                               (elemOp L et (tl lb) rb (fst field)) e" for e
              by (rule elem)
            then show ?thesis
              unfolding a b True by (intro commute_sliceOp_same)
          qed
        qed
      qed
    next
      case (TBasic n k)
      then show ?thesis
        using ne by (intro commute_never_left) (simp add: assignField_other_fails)
    next
      case TDuration
      then show ?thesis
        using ne by (intro commute_never_left) (simp add: assignField_other_fails)
    next
      case (TInterface n m)
      then show ?thesis
        using ne by (intro commute_never_left) (simp add: assignField_other_fails)
    qed
  qed
  show ?case
  proof (cases "pa = [] \<or> pb = []")
    case True
    then show ?thesis
      by (auto intro: commute_skip_left commute_skip_right simp: assignValue_Nil)
  next
    case False
    then have ne: "pa \<noteq> []" "pb \<noteq> []" by auto
    show ?thesis
    proof (cases "\<exists>n fs. t = TStruct n fs")
      case False
      then show ?thesis
        using ne by (intro commute_never_left) (simp add: assignValue_not_struct)
    next
      case True
      then obtain n fs where t: "t = TStruct n fs" by blast
      show ?thesis
      proof (cases "prefixLoop fs pa (length pa)")
        case None
        then show ?thesis
          unfolding t by (intro commute_skip_left) (simp add: assignValue_no_match)
      next
        case (Some pi)
        obtain p i where pi: "pi = (p, i)" by (cases pi)
        note A = Some [unfolded pi]
        show ?thesis
        proof (cases "prefixLoop fs pb (length pb)")
          case None
          then show ?thesis
            unfolding t by (intro commute_skip_right) (simp add: assignValue_no_match)
        next
          case (Some qj)
          obtain q j where qj: "qj = (q, j)" by (cases qj)
          note B = Some [unfolded qj]
          have a: "(\<lambda>x. assignValue L t x pa ra)
                     = fieldOp i (\<lambda>fv. assignField L (fs ! i) fv (drop p pa) ra)"
            and b: "(\<lambda>x. assignValue L t x pb rb)
                     = fieldOp j (\<lambda>fv. assignField L (fs ! j) fv (drop q pb) rb)"
            unfolding t using A B by (auto simp: assignValue_fieldOp)
          show ?thesis
          proof (cases "i = j")
            case False
            then show ?thesis
              unfolding a b by (rule commute_fieldOp_diff)
          next
            case True
            have "differentLeavesIn (snd (fs ! i)) (drop p pa) (drop q pb)"
              using less.prems A B True unfolding t by (simp add: differentLeaves.simps)
            moreover have "length (drop p pa) < length pa"
              using prefixLoop_bounds [OF A] ne by simp
            ultimately have "commute (\<lambda>x. assignField L (fs ! i) x (drop p pa) ra)
                               (\<lambda>x. assignField L (fs ! i) x (drop q pb) rb) fv" for fv
              by (rule field)
            then show ?thesis
              unfolding a b True [symmetric] by (intro commute_fieldOp_same)
          qed
        qed
      qed
    qed
  qed
qed


text \<open>
  The keys of a mapping resolve to pairwise different leaves.
\<close>

definition differentLeavesAll :: "gotype \<Rightarrow> (string \<times> string) list \<Rightarrow> bool" where
  "differentLeavesAll t kvs =
     (\<forall>kv \<in> set kvs. \<forall>kv' \<in> set kvs.
        fst kv \<noteq> fst kv' \<longrightarrow> differentLeaves t (Split (fst kv)) (Split (fst kv')))"

text \<open>A key can be moved behind keys whose leaves are not its own; so any order gives the same result.\<close>

lemma rangeLoop_move:
  assumes "\<forall>kv \<in> set pre. differentLeaves t (Split (fst a)) (Split (fst kv))"
    and "rangeLoop L t v (a # pre @ post) = (w, Success)"
  shows "rangeLoop L t v (pre @ a # post) = (w, Success)"
  using assms
proof (induction pre arbitrary: v)
  case Nil
  then show ?case by simp
next
  case (Cons b pre)
  obtain ka ra where a: "a = (ka, ra)" by (cases a)
  obtain kb rb where b: "b = (kb, rb)" by (cases b)
  from Cons.prems(2) obtain v1 v2 where
    1: "assignValue L t v (Split ka) ra = (v1, Success)"
    and 2: "assignValue L t v1 (Split kb) rb = (v2, Success)"
    and 3: "rangeLoop L t v2 (pre @ post) = (w, Success)"
    unfolding a b by (auto simp: rangeLoop_Cons_Success simp del: rangeLoop.simps)
  have "differentLeaves t (Split ka) (Split kb)"
    using Cons.prems(1) a b by simp
  from differentLeaves_commute [OF this, of L ra rb v] 1 2 obtain u where
    4: "assignValue L t v (Split kb) rb = (u, Success)"
    and 5: "assignValue L t u (Split ka) ra = (v2, Success)"
    unfolding commute_def by blast
  have "rangeLoop L t u (a # pre @ post) = (w, Success)"
    unfolding a using 5 3 by (auto simp: rangeLoop_Cons_Success simp del: rangeLoop.simps)
  then have "rangeLoop L t u (pre @ a # post) = (w, Success)"
    using Cons.IH Cons.prems(1) by simp
  then show ?case
    unfolding b using 4 by (auto simp: rangeLoop_Cons_Success simp del: rangeLoop.simps)
qed

lemma rangeLoop_any_order:
  assumes "differentLeavesAll t kvs" and "distinct (map fst kvs)" and "distinct (map fst kvs')"
    and "set kvs' = set kvs"
    and "rangeLoop L t v kvs = (w, Success)"
  shows "rangeLoop L t v kvs' = (w, Success)"
  using assms
proof (induction kvs arbitrary: kvs' v)
  case Nil
  then show ?case by simp
next
  case (Cons a rest)
  obtain ka ra where a: "a = (ka, ra)" by (cases a)
  from Cons.prems(4) have "a \<in> set kvs'" by auto
  then obtain pre post where split: "kvs' = pre @ a # post"
    by (meson split_list)
  have d1: "a \<notin> set rest" "distinct (map fst rest)"
    using Cons.prems(2) by (auto simp: image_iff)
  have d2: "a \<notin> set (pre @ post)" "distinct (map fst (pre @ post))"
    using Cons.prems(3) unfolding split by (auto simp: image_iff)
  have sets: "set (pre @ post) = set rest"
    using Cons.prems(4) d1(1) d2(1) unfolding split by auto
  have sep: "differentLeavesAll t rest"
    using Cons.prems(1) by (simp add: differentLeavesAll_def)
  from Cons.prems(5) obtain v1 where
    1: "assignValue L t v (Split ka) ra = (v1, Success)"
    and 2: "rangeLoop L t v1 rest = (w, Success)"
    unfolding a by (auto simp: rangeLoop_Cons_Success simp del: rangeLoop.simps)
  have "rangeLoop L t v1 (pre @ post) = (w, Success)"
    using Cons.IH [OF sep d1(2) d2(2) sets 2] .
  then have 3: "rangeLoop L t v (a # pre @ post) = (w, Success)"
    unfolding a using 1 by (auto simp: rangeLoop_Cons_Success simp del: rangeLoop.simps)
  have "\<forall>kv \<in> set pre. differentLeaves t (Split (fst a)) (Split (fst kv))"
  proof
    fix kv assume kv: "kv \<in> set pre"
    then have "fst kv \<noteq> fst a"
      using Cons.prems(3) unfolding split by (auto simp: image_iff)
    moreover have "kv \<in> set (a # rest)" "a \<in> set (a # rest)"
      using kv Cons.prems(4) unfolding split by auto
    ultimately show "differentLeaves t (Split (fst a)) (Split (fst kv))"
      using Cons.prems(1) unfolding differentLeavesAll_def by (metis)
  qed
  from rangeLoop_move [OF this 3] show ?case
    unfolding split .
qed

text \<open>
  C5, amended. For a flat mapping in which no two keys resolve to the same leaf of the
  destination, a decode that succeeds in one processing order succeeds in every processing
  order, with the same final structure.
\<close>

theorem decode_order_independent_on_different_leaves:
  assumes "differentLeavesAll t kvs" and "distinct (map fst kvs)" and "distinct (map fst kvs')"
    and "set kvs' = set kvs"
    and "Unmarshal L (Inr kvs) (PointerTo t v) = (dest, Success)"
  shows "Unmarshal L (Inr kvs') (PointerTo t v) = (dest, Success)"
proof -
  obtain w out where r: "rangeLoop L t v kvs = (w, out)"
    by (cases "rangeLoop L t v kvs")
  with assms(5) have k: "Kind t = KStruct" and o: "out = Success" and d: "dest = PointerTo t w"
    by (auto simp: Unmarshal_def split: if_splits)
  have "rangeLoop L t v kvs' = (w, Success)"
    using rangeLoop_any_order [OF assms(1-4)] r o by simp
  then show ?thesis
    by (simp add: Unmarshal_def d k)
qed

text \<open>
  \<open>DB_HOST\<close> and \<open>DB_PORT\<close> go through the same pointer field to different fields of the
  record behind it, \<open>ITEMS_1\<close> to an element of a slice: any order gives the same record.
\<close>

definition dbType :: gotype where
  "dbType = TStruct ''Config''
     [(''DB'', TPtr [] (TStruct ''Database''
         [(''Host'', TBasic ''string'' KString), (''Port'', TBasic ''int'' KInt)])),
      (''Items'', TSlice [] (TBasic ''string'' KString))]"

theorem decode_order_independent_on_different_leaves_witness:
  "\<forall>L. Unmarshal L (Inr [(''ITEMS_1'', ''x''), (''DB_PORT'', ''80''), (''DB_HOST'', ''example'')])
           (PointerTo dbType (VStruct [VPtr None, VSlice None]))
         = (PointerTo dbType
              (VStruct [VPtr (Some (VStruct [VString ''example'', VInt 80])),
                        VSlice (Some [VString [], VString ''x''])]), Success)"
proof
  fix L
  have s: "differentLeavesAll dbType [(''DB_HOST'', ''example''), (''DB_PORT'', ''80''), (''ITEMS_1'', ''x'')]"
    by (simp add: differentLeavesAll_def dbType_def differentLeaves.simps differentLeavesIn.simps
          normalize_def ToLower_def toLowerByte_def)
  have d: "distinct (map fst [(''DB_HOST'', ''example''), (''DB_PORT'', ''80''), (''ITEMS_1'', ''x'')])"
    and d': "distinct (map fst [(''ITEMS_1'', ''x''), (''DB_PORT'', ''80''), (''DB_HOST'', ''example'')])"
    and e: "set [(''ITEMS_1'', ''x''), (''DB_PORT'', ''80''), (''DB_HOST'', ''example'')]
              = set [(''DB_HOST'', ''example''), (''DB_PORT'', ''80''), (''ITEMS_1'', ''x'')]"
    by auto
  have u: "Unmarshal L (Inr [(''DB_HOST'', ''example''), (''DB_PORT'', ''80''), (''ITEMS_1'', ''x'')])
           (PointerTo dbType (VStruct [VPtr None, VSlice None]))
         = (PointerTo dbType
              (VStruct [VPtr (Some (VStruct [VString ''example'', VInt 80])),
                        VSlice (Some [VString [], VString ''x''])]), Success)"
    by (simp add: dbType_def decoder_eval)
  show "Unmarshal L (Inr [(''ITEMS_1'', ''x''), (''DB_PORT'', ''80''), (''DB_HOST'', ''example'')])
           (PointerTo dbType (VStruct [VPtr None, VSlice None]))
         = (PointerTo dbType
              (VStruct [VPtr (Some (VStruct [VString ''example'', VInt 80])),
                        VSlice (Some [VString [], VString ''x''])]), Success)"
    using decode_order_independent_on_different_leaves [OF s d d' e u] .
qed

end
